theory Spec2Isabelle
  imports Complex_Main "HOL-Library.AList"
begin

section \<open>Array elements\<close>

text \<open>
  The program is Python 2 over numpy. Every array it handles holds float64 values. An
  element is modelled as a real number or one of the three special values that numpy's
  arithmetic produces without raising: the two infinities and not-a-number. Rounding and
  overflow are not modelled, and neither is the sign of zero.
\<close>

datatype npfloat = Fin real | PInf | NInf | NaN

fun nf_add :: "npfloat \<Rightarrow> npfloat \<Rightarrow> npfloat" where
  "nf_add (Fin a) (Fin b) = Fin (a + b)"
| "nf_add NaN y = NaN"
| "nf_add x NaN = NaN"
| "nf_add PInf NInf = NaN"
| "nf_add NInf PInf = NaN"
| "nf_add PInf y = PInf"
| "nf_add x PInf = PInf"
| "nf_add NInf y = NInf"
| "nf_add x NInf = NInf"

fun nf_neg :: "npfloat \<Rightarrow> npfloat" where
  "nf_neg (Fin a) = Fin (- a)"
| "nf_neg PInf = NInf"
| "nf_neg NInf = PInf"
| "nf_neg NaN = NaN"

fun nf_scale_inf :: "real \<Rightarrow> npfloat \<Rightarrow> npfloat" where
  "nf_scale_inf a y = (if a = 0 then NaN else if 0 < a then y else nf_neg y)"

fun nf_mul :: "npfloat \<Rightarrow> npfloat \<Rightarrow> npfloat" where
  "nf_mul (Fin a) (Fin b) = Fin (a * b)"
| "nf_mul NaN y = NaN"
| "nf_mul x NaN = NaN"
| "nf_mul (Fin a) y = nf_scale_inf a y"
| "nf_mul x (Fin b) = nf_scale_inf b x"
| "nf_mul PInf y = y"
| "nf_mul NInf y = nf_neg y"

text \<open>
  True division as \<^verbatim>\<open>prob/Z\<close> performs it on a float array: a zero divisor raises
  nothing (numpy only warns) and yields nan or an infinity. The only zero divisor the
  program can reach is the positive zero that \<^verbatim>\<open>sum\<close> returns.
\<close>

fun nf_div :: "npfloat \<Rightarrow> npfloat \<Rightarrow> npfloat" where
  "nf_div NaN y = NaN"
| "nf_div x NaN = NaN"
| "nf_div (Fin a) (Fin b) =
     (if b \<noteq> 0 then Fin (a / b) else if a = 0 then NaN else if 0 < a then PInf else NInf)"
| "nf_div (Fin a) y = Fin 0"
| "nf_div x (Fin b) = (if 0 \<le> b then x else nf_neg x)"
| "nf_div x y = NaN"

fun nf_log :: "npfloat \<Rightarrow> npfloat" where
  "nf_log (Fin a) = (if 0 < a then Fin (ln a) else if a = 0 then NInf else NaN)"
| "nf_log PInf = PInf"
| "nf_log NInf = NaN"
| "nf_log NaN = NaN"

text \<open>\<^verbatim>\<open>np.amax\<close> propagates nan.\<close>

fun nf_max :: "npfloat \<Rightarrow> npfloat \<Rightarrow> npfloat" where
  "nf_max (Fin a) (Fin b) = Fin (max a b)"
| "nf_max NaN y = NaN"
| "nf_max x NaN = NaN"
| "nf_max PInf y = PInf"
| "nf_max x PInf = PInf"
| "nf_max NInf y = y"
| "nf_max x NInf = x"

fun nf_le :: "npfloat \<Rightarrow> npfloat \<Rightarrow> bool" where
  "nf_le (Fin a) (Fin b) = (a \<le> b)"
| "nf_le NaN y = False"
| "nf_le x NaN = False"
| "nf_le NInf y = True"
| "nf_le x PInf = True"
| "nf_le x y = False"

text \<open>Python's truth value of a number: \<^verbatim>\<open>not Z\<close> holds for zero only (nan is true).\<close>

fun nf_truthy :: "npfloat \<Rightarrow> bool" where
  "nf_truthy (Fin a) = (a \<noteq> 0)"
| "nf_truthy x = True"

section \<open>numpy arrays\<close>

text \<open>
  An array is its shape and its elements in row-major (C) order, as numpy stores a
  freshly built array. A scalar is the array of shape \<open>[]\<close>.
\<close>

record ndarray =
  shape :: "nat list"
  data :: "npfloat list"

definition valid_array :: "ndarray \<Rightarrow> bool" where
  "valid_array a = (length (data a) = prod_list (shape a))"

text \<open>All multi-indices of a shape, in row-major order, and the offset of one of them.\<close>

fun all_idx :: "nat list \<Rightarrow> nat list list" where
  "all_idx [] = [[]]"
| "all_idx (d # ds) = concat (map (\<lambda>i. map ((#) i) (all_idx ds)) [0..<d])"

fun ravel :: "nat list \<Rightarrow> nat list \<Rightarrow> nat" where
  "ravel (d # ds) (i # js) = i * prod_list ds + ravel ds js"
| "ravel ds js = 0"

definition item :: "ndarray \<Rightarrow> nat list \<Rightarrow> npfloat" where
  "item a idx = data a ! ravel (shape a) idx"

definition tabulate :: "nat list \<Rightarrow> (nat list \<Rightarrow> npfloat) \<Rightarrow> ndarray" where
  "tabulate sh g = \<lparr>shape = sh, data = map g (all_idx sh)\<rparr>"

definition scalar :: "npfloat \<Rightarrow> ndarray" where
  "scalar x = \<lparr>shape = [], data = [x]\<rparr>"

definition vec :: "npfloat list \<Rightarrow> ndarray" where
  "vec xs = \<lparr>shape = [length xs], data = xs\<rparr>"

definition np_ones :: "nat \<Rightarrow> ndarray" where
  "np_ones n = vec (replicate n (Fin 1))"

definition np_zeros :: "nat \<Rightarrow> ndarray" where
  "np_zeros n = vec (replicate n (Fin 0))"

definition np_log :: "ndarray \<Rightarrow> ndarray" where
  "np_log a = \<lparr>shape = shape a, data = map nf_log (data a)\<rparr>"

datatype error =
  KeyError | ValueError | TypeError | IndexError | AttributeError | AssertionError
  | NotImplementedException

subsection \<open>Broadcasting\<close>

text \<open>
  numpy aligns two shapes at their last axes; two lengths are compatible when they are
  equal or one of them is 1. The first function works on the reversed shapes.
\<close>

fun bc_dims :: "nat list \<Rightarrow> nat list \<Rightarrow> nat list option" where
  "bc_dims [] ys = Some ys"
| "bc_dims xs [] = Some xs"
| "bc_dims (x # xs) (y # ys) =
     (if x = y \<or> y = 1 then map_option ((#) x) (bc_dims xs ys)
      else if x = 1 then map_option ((#) y) (bc_dims xs ys)
      else None)"

definition broadcast_shapes :: "nat list \<Rightarrow> nat list \<Rightarrow> nat list option" where
  "broadcast_shapes s1 s2 = map_option rev (bc_dims (rev s1) (rev s2))"

text \<open>The index into an operand of shape \<open>s\<close> that the result's index \<open>idx\<close> reads.\<close>

definition bc_index :: "nat list \<Rightarrow> nat list \<Rightarrow> nat list" where
  "bc_index s idx = map2 (\<lambda>d i. if d = 1 then 0 else i) s (drop (length idx - length s) idx)"

definition np_binop ::
  "(npfloat \<Rightarrow> npfloat \<Rightarrow> npfloat) \<Rightarrow> ndarray \<Rightarrow> ndarray \<Rightarrow> error + ndarray" where
  "np_binop opr a b =
     (case broadcast_shapes (shape a) (shape b) of
        None \<Rightarrow> Inl ValueError
      | Some sh \<Rightarrow>
          Inr (tabulate sh (\<lambda>idx. opr (item a (bc_index (shape a) idx))
                                       (item b (bc_index (shape b) idx)))))"

text \<open>
  An in-place operator \<^verbatim>\<open>a op= b\<close> on an array \<open>a\<close> writes into \<open>a\<close>: the broadcast
  shape must be the shape of \<open>a\<close>.
\<close>

definition np_inplace ::
  "(npfloat \<Rightarrow> npfloat \<Rightarrow> npfloat) \<Rightarrow> ndarray \<Rightarrow> ndarray \<Rightarrow> error + ndarray" where
  "np_inplace opr a b =
     (if broadcast_shapes (shape a) (shape b) = Some (shape a) then np_binop opr a b
      else Inl ValueError)"

text \<open>
  The accumulators \<^verbatim>\<open>prob = 1\<close>, \<^verbatim>\<open>msg = 0\<close> and \<^verbatim>\<open>mm = 0\<close> start as Python
  integers. The first \<^verbatim>\<open>op=\<close> with an array builds a new array from the integer and
  the array; the later ones work in place.
\<close>

datatype pyacc = PyInt int | PyArr ndarray

definition py_iop ::
  "(npfloat \<Rightarrow> npfloat \<Rightarrow> npfloat) \<Rightarrow> pyacc \<Rightarrow> ndarray \<Rightarrow> error + pyacc" where
  "py_iop opr acc b =
     (case acc of
        PyInt n \<Rightarrow> map_sum id PyArr (np_binop opr (scalar (Fin (of_int n))) b)
      | PyArr a \<Rightarrow> map_sum id PyArr (np_inplace opr a b))"

subsection \<open>Python list helpers\<close>

text \<open>\<^verbatim>\<open>xs.index(x)\<close>: the first position of \<open>x\<close>, or ValueError.\<close>

definition first_index :: "'a list \<Rightarrow> 'a \<Rightarrow> nat" where
  "first_index xs x = length (takeWhile (\<lambda>y. y \<noteq> x) xs)"

definition py_index :: "'a list \<Rightarrow> 'a \<Rightarrow> error + nat" where
  "py_index xs x = (if x \<in> set xs then Inr (first_index xs x) else Inl ValueError)"

text \<open>\<^verbatim>\<open>del xs[i]\<close> and \<^verbatim>\<open>xs.insert(i, x)\<close> for an index within the list.\<close>

definition py_del :: "'a list \<Rightarrow> nat \<Rightarrow> 'a list" where
  "py_del xs i = take i xs @ drop (Suc i) xs"

definition py_insert :: "'a list \<Rightarrow> nat \<Rightarrow> 'a \<Rightarrow> 'a list" where
  "py_insert xs i x = take i xs @ x # drop i xs"

subsection \<open>Reshaping, tiling and transposing\<close>

text \<open>
  \<^verbatim>\<open>np.tile(a, reps)\<close>: the shorter of the shape and \<open>reps\<close> is extended with
  leading ones; along every axis the array is repeated, so the element at an index is
  the element of \<open>a\<close> at that index modulo the lengths of \<open>a\<close>.
\<close>

definition np_tile :: "ndarray \<Rightarrow> nat list \<Rightarrow> ndarray" where
  "np_tile a reps =
     (let d = max (length reps) (length (shape a));
          rs = replicate (d - length reps) 1 @ reps;
          sh = replicate (d - length (shape a)) 1 @ shape a
      in tabulate (map2 (*) sh rs)
           (\<lambda>idx. item a (drop (d - length (shape a)) (map2 (\<lambda>i s. i mod s) idx sh))))"

text \<open>
  \<^verbatim>\<open>a.transpose(axes)\<close>: axis \<open>j\<close> of the result is axis \<open>axes ! j\<close> of \<open>a\<close>.
\<close>

definition np_transpose :: "ndarray \<Rightarrow> nat list \<Rightarrow> ndarray" where
  "np_transpose a axes =
     tabulate (map ((!) (shape a)) axes)
       (\<lambda>idx. item a (map (\<lambda>p. idx ! first_index axes p) [0..<length (shape a)]))"

text \<open>
  \<^verbatim>\<open>np.rollaxis(a, axis, start)\<close> for non-negative arguments, after numpy's source:
  \<^verbatim>\<open>
    if not (0 <= axis < n): raise ValueError
    if not (0 <= start < n + 1): raise ValueError
    if axis < start: start -= 1
    if axis == start: return a
    axes = list(range(0, n)); axes.remove(axis); axes.insert(start, axis)
    return a.transpose(axes)
  \<close>
\<close>

definition np_rollaxis :: "ndarray \<Rightarrow> nat \<Rightarrow> nat \<Rightarrow> error + ndarray" where
  "np_rollaxis a axis start =
     (let n = length (shape a) in
      if \<not> axis < n \<or> \<not> start < n + 1 then Inl ValueError
      else let start' = (if axis < start then start - 1 else start) in
        if axis = start' then Inr a
        else Inr (np_transpose a (py_insert (remove1 axis [0..<n]) start' axis)))"

subsection \<open>Reductions and contraction\<close>

text \<open>
  The full index of an \<open>n\<close>-axis array put together from an index \<open>c\<close> over the axes
  listed in \<open>axes\<close> (in the order listed) and an index \<open>free\<close> over the other axes (in
  increasing order).
\<close>

definition merge_idx :: "nat \<Rightarrow> nat list \<Rightarrow> nat list \<Rightarrow> nat list \<Rightarrow> nat list" where
  "merge_idx n axes free c =
     map (\<lambda>p. if p \<in> set axes then c ! first_index axes p
               else free ! length (filter (\<lambda>q. q \<notin> set axes) [0..<p])) [0..<n]"

fun nf_maximum :: "npfloat list \<Rightarrow> npfloat" where
  "nf_maximum [] = NaN"
| "nf_maximum (x # xs) = foldl nf_max x xs"

text \<open>
  \<^verbatim>\<open>np.amax(a, axis=axes)\<close> for a tuple of axes: the maximum over the listed axes;
  the result keeps the other axes in order. An axis out of range, a repeated axis and
  a reduction over no element raise ValueError.
\<close>

definition np_amax :: "ndarray \<Rightarrow> nat list \<Rightarrow> error + ndarray" where
  "np_amax a axes =
     (let n = length (shape a) in
      if \<not> list_all (\<lambda>ax. ax < n) axes \<or> \<not> distinct axes then Inl ValueError
      else let red = map ((!) (shape a)) axes;
               keep = filter (\<lambda>p. p \<notin> set axes) [0..<n]
        in if prod_list red = 0 then Inl ValueError
           else Inr (tabulate (map ((!) (shape a)) keep)
                  (\<lambda>idx. nf_maximum (map (\<lambda>c. item a (merge_idx n axes idx c)) (all_idx red)))))"

definition nf_sum :: "npfloat list \<Rightarrow> npfloat" where
  "nf_sum xs = foldl nf_add (Fin 0) xs"

text \<open>
  \<^verbatim>\<open>np.tensordot(a, b, axes=(axes_a, axes_b))\<close>: the sum of products over the paired
  axes; the result has the remaining axes of \<open>a\<close>, then those of \<open>b\<close>. numpy checks
  that the two lists are equally long and that paired axes are equally long
  (ValueError otherwise); an axis out of range is an IndexError of the shape tuple and a
  repeated axis a ValueError of the transposition.
\<close>

definition np_tensordot ::
  "ndarray \<Rightarrow> ndarray \<Rightarrow> nat list \<Rightarrow> nat list \<Rightarrow> error + ndarray" where
  "np_tensordot a b axes_a axes_b =
     (let na = length (shape a); nb = length (shape b) in
      if length axes_a \<noteq> length axes_b then Inl ValueError
      else if \<not> list_all (\<lambda>ax. ax < na) axes_a \<or> \<not> list_all (\<lambda>ax. ax < nb) axes_b
        then Inl IndexError
      else if map ((!) (shape a)) axes_a \<noteq> map ((!) (shape b)) axes_b
              \<or> \<not> distinct axes_a \<or> \<not> distinct axes_b
        then Inl ValueError
      else let keep_a = filter (\<lambda>p. p \<notin> set axes_a) [0..<na];
               keep_b = filter (\<lambda>p. p \<notin> set axes_b) [0..<nb]
        in Inr (tabulate (map ((!) (shape a)) keep_a @ map ((!) (shape b)) keep_b)
             (\<lambda>idx. nf_sum (map
                (\<lambda>c. nf_mul (item a (merge_idx na axes_a (take (length keep_a) idx) c))
                             (item b (merge_idx nb axes_b (drop (length keep_a) idx) c)))
                (all_idx (map ((!) (shape a)) axes_a))))))"

text \<open>
  \<^verbatim>\<open>np.ix_(*vectors)\<close>: every argument must have one axis (ValueError otherwise);
  argument \<open>j\<close> of \<open>k\<close> is reshaped so that its elements lie along axis \<open>j\<close> of \<open>k\<close>
  axes.
\<close>

definition np_ix :: "ndarray list \<Rightarrow> error + ndarray list" where
  "np_ix vectors =
     (if list_all (\<lambda>v. length (shape v) = 1) vectors
      then Inr (map (\<lambda>(j, v). \<lparr>shape = replicate j 1 @ shape v
                                         @ replicate (length vectors - j - 1) 1,
                                 data = data v\<rparr>)
                    (enumerate 0 vectors))
      else Inl ValueError)"

text \<open>Python 2's builtin \<^verbatim>\<open>reduce(np.multiply, seq)\<close>: a left fold from the first element.\<close>

fun reduce_from :: "ndarray \<Rightarrow> ndarray list \<Rightarrow> error + ndarray" where
  "reduce_from acc [] = Inr acc"
| "reduce_from acc (x # xs) =
     (case np_binop nf_mul acc x of Inl e \<Rightarrow> Inl e | Inr y \<Rightarrow> reduce_from y xs)"

definition py_reduce_multiply :: "ndarray list \<Rightarrow> error + ndarray" where
  "py_reduce_multiply seq = (case seq of [] \<Rightarrow> Inl TypeError | x # xs \<Rightarrow> reduce_from x xs)"

text \<open>
  A ufunc's \<^verbatim>\<open>reduce\<close> (and \<^verbatim>\<open>np.sum(..., axis=0)\<close>) applied to a Python list of
  arrays first stacks the list into one array, which needs equal shapes, and then
  combines the entries elementwise along the new first axis. Of an empty list it
  returns the operation's identity. (Recent numpy raises ValueError when the shapes
  differ; releases of the program's time built an array of objects instead. The model
  takes the ValueError.)
\<close>

definition ew :: "(npfloat \<Rightarrow> npfloat \<Rightarrow> npfloat) \<Rightarrow> ndarray \<Rightarrow> ndarray \<Rightarrow> ndarray" where
  "ew opr a b = \<lparr>shape = shape a, data = map2 opr (data a) (data b)\<rparr>"

definition np_reduce_list ::
  "(npfloat \<Rightarrow> npfloat \<Rightarrow> npfloat) \<Rightarrow> npfloat \<Rightarrow> ndarray list \<Rightarrow> error + ndarray" where
  "np_reduce_list opr unit vectors =
     (case vectors of
        [] \<Rightarrow> Inr (scalar unit)
      | v # vs \<Rightarrow>
          if list_all (\<lambda>w. shape w = shape v) vs then Inr (foldl (ew opr) v vs)
          else Inl ValueError)"

text \<open>
  \<^verbatim>\<open>np.argmax(a)\<close>: the offset of the first maximum of the flattened array; a nan
  counts as maximal. numpy's loop moves to a later element \<open>x\<close> exactly when
  \<^verbatim>\<open>not (x <= current)\<close>. An empty array raises ValueError.
\<close>

fun argmax_from :: "npfloat \<Rightarrow> nat \<Rightarrow> nat \<Rightarrow> npfloat list \<Rightarrow> nat" where
  "argmax_from mp best i [] = best"
| "argmax_from mp best i (x # xs) =
     (if mp = NaN then best
      else if \<not> nf_le x mp then argmax_from x i (Suc i) xs
      else argmax_from mp best (Suc i) xs)"

definition np_argmax :: "ndarray \<Rightarrow> error + nat" where
  "np_argmax a = (case data a of [] \<Rightarrow> Inl ValueError | x # xs \<Rightarrow> Inr (argmax_from x 0 1 xs))"

text \<open>
  \<^verbatim>\<open>a[:] = x\<close> overwrites every element; \<^verbatim>\<open>a[k] = x\<close> with an integer \<open>k\<close>
  overwrites entry \<open>k\<close> of the first axis (a negative \<open>k\<close> counts from the end) and
  raises IndexError when \<open>k\<close> is out of range or the array has no axis.
\<close>

definition np_fill :: "ndarray \<Rightarrow> npfloat \<Rightarrow> ndarray" where
  "np_fill a x = \<lparr>shape = shape a, data = map (\<lambda>y. x) (data a)\<rparr>"

definition np_setitem :: "ndarray \<Rightarrow> int \<Rightarrow> npfloat \<Rightarrow> error + ndarray" where
  "np_setitem a k x =
     (case shape a of
        [] \<Rightarrow> Inl IndexError
      | d # ds \<Rightarrow>
          (let j = (if k < 0 then k + int d else k); bs = prod_list ds in
           if 0 \<le> j \<and> j < int d
           then Inr \<lparr>shape = shape a,
                     data = map (\<lambda>(p, y). if nat j * bs \<le> p \<and> p < (nat j + 1) * bs then x else y)
                              (enumerate 0 (data a))\<rparr>
           else Inl IndexError))"

text \<open>
  The builtin \<^verbatim>\<open>sum(prob)\<close> iterates over the first axis and adds the entries to the
  integer 0. It raises TypeError on an integer and on an array without an axis.
\<close>

definition py_sum :: "pyacc \<Rightarrow> error + ndarray" where
  "py_sum prob =
     (case prob of
        PyInt n \<Rightarrow> Inl TypeError
      | PyArr a \<Rightarrow>
          (case shape a of
             [] \<Rightarrow> Inl TypeError
           | d # ds \<Rightarrow>
               if d = 0 then Inr (scalar (Fin 0))
               else Inr (tabulate ds (\<lambda>idx. nf_sum (map (\<lambda>i. item a (i # idx)) [0..<d])))))"

definition acc_array :: "pyacc \<Rightarrow> ndarray" where
  "acc_array acc = (case acc of PyInt n \<Rightarrow> scalar (Fin (of_int n)) | PyArr a \<Rightarrow> a)"

section \<open>Nodes of the factor graph\<close>

text \<open>
  Python compares and hashes the node objects by identity. A node is referred to by its
  identity, and the heap maps an identity to the object's attributes. \<open>factor_f\<close> is the
  attribute \<^verbatim>\<open>f\<close> of a Factor, absent until the constructor has set it. \<open>in_msgs\<close> is
  the dictionary of incoming messages, one entry per key. Messages are kept as values;
  the program stores references, which only \<^verbatim>\<open>set_observed\<close> and
  \<^verbatim>\<open>set_latent\<close> write through (in place, into \<^verbatim>\<open>observed_state\<close>).
\<close>

type_synonym node_id = nat

datatype node_kind = Node | Variable | Factor

record node =
  name :: string
  neighbours :: "node_id list"
  in_msgs :: "(node_id \<times> ndarray) list"
  pending :: "node_id set"
  kind :: node_kind
  num_states :: nat
  latent :: bool
  observed_state :: ndarray
  factor_f :: "ndarray option"

type_synonym heap = "node_id \<Rightarrow> node"

subsection \<open>Node\<close>

definition Node_reset :: "node \<Rightarrow> node" where
  "Node_reset n = n\<lparr>in_msgs := [], pending := {}\<rparr>"

definition add_neighbour :: "node_id \<Rightarrow> node \<Rightarrow> node" where
  "add_neighbour nb n = n\<lparr>neighbours := neighbours n @ [nb]\<rparr>"

definition receive_msg :: "node_id \<Rightarrow> ndarray \<Rightarrow> node \<Rightarrow> node" where
  "receive_msg other msg n =
     n\<lparr>in_msgs := AList.update other msg (in_msgs n),
       pending := pending n \<union> (set (neighbours n) - {other})\<rparr>"

text \<open>
  The two statements that end every send:
  \<^verbatim>\<open>other.receive_msg(self, msg); self.pending.discard(other)\<close>.
\<close>

definition deliver :: "heap \<Rightarrow> node_id \<Rightarrow> node_id \<Rightarrow> ndarray \<Rightarrow> heap" where
  "deliver h self other msg =
     (let h1 = h(other := receive_msg self msg (h other))
      in h1(self := (h1 self)\<lparr>pending := pending (h1 self) - {other}\<rparr>))"

text \<open>\<^verbatim>\<open>[self.in_msgs[nb] for nb in nbs]\<close>: KeyError at the first missing key.\<close>

fun getitems :: "(node_id \<times> ndarray) list \<Rightarrow> node_id list \<Rightarrow> error + ndarray list" where
  "getitems d [] = Inr []"
| "getitems d (k # ks) =
     (case map_of d k of
        None \<Rightarrow> Inl KeyError
      | Some v \<Rightarrow> (case getitems d ks of Inl e \<Rightarrow> Inl e | Inr vs \<Rightarrow> Inr (v # vs)))"

text \<open>
  \<^verbatim>\<open>for k in keys: acc op= self.in_msgs[k]\<close>, the loop of \<^verbatim>\<open>marginal\<close> (with
  \<^verbatim>\<open>*=\<close>) and of \<^verbatim>\<open>Variable.send_ms_msg\<close> (with \<^verbatim>\<open>+=\<close>).
\<close>

fun iop_loop ::
  "(npfloat \<Rightarrow> npfloat \<Rightarrow> npfloat) \<Rightarrow> (node_id \<times> ndarray) list \<Rightarrow> node_id list \<Rightarrow> pyacc
    \<Rightarrow> error + pyacc" where
  "iop_loop opr d [] acc = Inr acc"
| "iop_loop opr d (k # ks) acc =
     (case map_of d k of
        None \<Rightarrow> Inl KeyError
      | Some m \<Rightarrow> (case py_iop opr acc m of Inl e \<Rightarrow> Inl e | Inr acc' \<Rightarrow> iop_loop opr d ks acc'))"

subsection \<open>Variable\<close>

definition Variable_init :: "heap \<Rightarrow> node_id \<Rightarrow> string \<Rightarrow> nat \<Rightarrow> heap" where
  "Variable_init h self nm n =
     h(self := \<lparr>name = nm, neighbours = [], in_msgs = [], pending = {}, kind = Variable,
                num_states = n, latent = True, observed_state = np_ones n,
                factor_f = None\<rparr>)"

text \<open>
  \<^verbatim>\<open>reset\<close> is \<^verbatim>\<open>Node.reset\<close>, which a Variable extends by a fresh all-ones
  \<^verbatim>\<open>observed_state\<close>.
\<close>

definition reset :: "heap \<Rightarrow> node_id \<Rightarrow> heap" where
  "reset h self =
     (if kind (h self) = Variable
      then h(self := (Node_reset (h self))\<lparr>observed_state := np_ones (num_states (h self))\<rparr>)
      else h(self := Node_reset (h self)))"

text \<open>
  \<^verbatim>\<open>set_observed\<close> can raise after it has written: the result of a raising call holds
  the error and the heap at that point.
\<close>

definition set_observed :: "heap \<Rightarrow> node_id \<Rightarrow> int \<Rightarrow> (error \<times> heap) + heap" where
  "set_observed h self k =
     (if kind (h self) \<noteq> Variable then Inl (AttributeError, h)
      else let n1 = (h self)\<lparr>latent := False\<rparr>;
               n2 = n1\<lparr>observed_state := np_fill (observed_state n1) (Fin 0.000001)\<rparr>
        in case np_setitem (observed_state n2) k (Fin 1) of
             Inl e \<Rightarrow> Inl (e, h(self := n2))
           | Inr a \<Rightarrow> Inr (h(self := n2\<lparr>observed_state := a\<rparr>)))"

definition set_latent :: "heap \<Rightarrow> node_id \<Rightarrow> heap" where
  "set_latent h self =
     h(self := (h self)\<lparr>latent := True,
                        observed_state := np_fill (observed_state (h self)) (Fin 1)\<rparr>)"

text \<open>
  \<^verbatim>\<open>marginal(Z)\<close>; \<open>None\<close> is Python's \<^verbatim>\<open>None\<close>. A number given for \<open>Z\<close> is taken
  as a float. The result is the pair \<^verbatim>\<open>(marginal, Z)\<close>, the second component a scalar
  whenever \<^verbatim>\<open>prob\<close> has one axis.
\<close>

definition marginal :: "heap \<Rightarrow> node_id \<Rightarrow> npfloat option \<Rightarrow> error + ndarray \<times> ndarray" where
  "marginal h self Z =
     (case iop_loop nf_mul (in_msgs (h self)) (neighbours (h self)) (PyInt 1) of
        Inl e \<Rightarrow> Inl e
      | Inr prob \<Rightarrow>
          (case (case Z of
                   None \<Rightarrow> py_sum prob
                 | Some z \<Rightarrow> if \<not> nf_truthy z then py_sum prob else Inr (scalar z)) of
             Inl e \<Rightarrow> Inl e
           | Inr Z' \<Rightarrow>
               (case np_binop nf_div (acc_array prob) Z' of
                  Inl e \<Rightarrow> Inl e
                | Inr m \<Rightarrow> Inr (m, Z'))))"

definition Variable_send_sp_msg :: "heap \<Rightarrow> node_id \<Rightarrow> node_id \<Rightarrow> error + heap" where
  "Variable_send_sp_msg h self other =
     (if \<not> latent (h self) then Inr (deliver h self other (observed_state (h self)))
      else let nbs = filter (\<lambda>nb. \<not> nb = other) (neighbours (h self)) in
        case (if length nbs = 0 then Inr (np_ones (num_states (h self)))
              else case getitems (in_msgs (h self)) nbs of
                     Inl e \<Rightarrow> Inl e
                   | Inr vectors \<Rightarrow> np_reduce_list nf_mul (Fin 1) vectors) of
          Inl e \<Rightarrow> Inl e
        | Inr msg \<Rightarrow> Inr (deliver h self other msg))"

definition Variable_send_ms_msg :: "heap \<Rightarrow> node_id \<Rightarrow> node_id \<Rightarrow> error + heap" where
  "Variable_send_ms_msg h self other =
     (if \<not> latent (h self) then Inr (deliver h self other (observed_state (h self)))
      else let nbs = filter (\<lambda>nb. \<not> nb = other) (neighbours (h self)) in
        case (if length nbs = 0 then Inr (PyArr (np_zeros (num_states (h self))))
              else iop_loop nf_add (in_msgs (h self)) nbs (PyInt 0)) of
          Inl e \<Rightarrow> Inl e
        | Inr msg \<Rightarrow> Inr (deliver h self other (acc_array msg)))"

subsection \<open>Factor\<close>

text \<open>
  The constructor. \<open>self\<close> is the identity of the object being built. Python runs the
  base constructor first (\<^verbatim>\<open>neighbours = []\<close>, \<^verbatim>\<open>reset()\<close>), asserts that the
  array has as many axes as there are neighbours, and then, neighbour by neighbour,
  asserts the axis length and registers the edge on both sides; \<^verbatim>\<open>self.f\<close> is set last.
  A failed assertion leaves the heap as it is at that point.
\<close>

fun Factor_init_loop ::
  "heap \<Rightarrow> node_id \<Rightarrow> ndarray \<Rightarrow> nat \<Rightarrow> node_id list \<Rightarrow> (error \<times> heap) + heap" where
  "Factor_init_loop h self f nb_ind [] = Inr h"
| "Factor_init_loop h self f nb_ind (nb # rest) =
     (if \<not> nb_ind < length (shape f) then Inl (IndexError, h)
      else if kind (h nb) \<noteq> Variable then Inl (AttributeError, h)
      else if \<not> shape f ! nb_ind = num_states (h nb) then Inl (AssertionError, h)
      else let h1 = h(self := add_neighbour nb (h self));
               h2 = h1(nb := add_neighbour self (h1 nb))
        in Factor_init_loop h2 self f (Suc nb_ind) rest)"

definition Factor_init ::
  "heap \<Rightarrow> node_id \<Rightarrow> string \<Rightarrow> ndarray \<Rightarrow> node_id list \<Rightarrow> (error \<times> heap) + heap" where
  "Factor_init h self nm f nbs =
     (let h0 = h(self := \<lparr>name = nm, neighbours = [], in_msgs = [], pending = {},
                          kind = Factor, num_states = 0, latent = False,
                          observed_state = vec [], factor_f = None\<rparr>)
      in if \<not> length nbs = length (shape f) then Inl (AssertionError, h0)
         else case Factor_init_loop h0 self f 0 nbs of
                Inl eh \<Rightarrow> Inl eh
              | Inr h1 \<Rightarrow> Inr (h1(self := (h1 self)\<lparr>factor_f := Some f\<rparr>)))"

definition get_f :: "node \<Rightarrow> error + ndarray" where
  "get_f n = (case factor_f n of None \<Rightarrow> Inl AttributeError | Some f \<Rightarrow> Inr f)"

definition Factor_send_sp_msg :: "heap \<Rightarrow> node_id \<Rightarrow> node_id \<Rightarrow> error + heap" where
  "Factor_send_sp_msg h self other =
     (let nbs = filter (\<lambda>nb. \<not> nb = other) (neighbours (h self)) in
      case (if length nbs = 0 then get_f (h self)
            else case getitems (in_msgs (h self)) nbs of
              Inl e \<Rightarrow> Inl e
            | Inr vectors \<Rightarrow>
               (case np_ix vectors of
                  Inl e \<Rightarrow> Inl e
                | Inr grids \<Rightarrow>
                   (case py_reduce_multiply grids of
                      Inl e \<Rightarrow> Inl e
                    | Inr mm \<Rightarrow>
                       (case py_index (neighbours (h self)) other of
                          Inl e \<Rightarrow> Inl e
                        | Inr other_i \<Rightarrow>
                           (let f_axes = filter (\<lambda>i. \<not> i = other_i)
                                           [0..<length (neighbours (h self))]
                            in case get_f (h self) of
                                 Inl e \<Rightarrow> Inl e
                               | Inr f \<Rightarrow>
                                   np_tensordot f mm f_axes [0..<length (shape mm)]))))) of
        Inl e \<Rightarrow> Inl e
      | Inr msg \<Rightarrow> Inr (deliver h self other msg))"

text \<open>\<^verbatim>\<open>[nb.num_states for nb in nbs]\<close>: only a Variable has the attribute.\<close>

fun num_states_list :: "heap \<Rightarrow> node_id list \<Rightarrow> error + nat list" where
  "num_states_list h [] = Inr []"
| "num_states_list h (nb # rest) =
     (if kind (h nb) \<noteq> Variable then Inl AttributeError
      else case num_states_list h rest of
             Inl e \<Rightarrow> Inl e
           | Inr ds \<Rightarrow> Inr (num_states (h nb) # ds))"

text \<open>
  The loop of \<^verbatim>\<open>Factor.send_ms_msg\<close>:
  \<^verbatim>\<open>
    for nb in nbs:
        i = nbs.index(nb)
        dim_copy = dims[:]; del dim_copy[i]; dim_copy.append(1)
        t = np.tile(self.in_msgs[nb], dim_copy)
        t = np.rollaxis(t, 0, i)
        mm += t
  \<close>
\<close>

fun ms_loop ::
  "(node_id \<times> ndarray) list \<Rightarrow> node_id list \<Rightarrow> nat list \<Rightarrow> node_id list \<Rightarrow> pyacc
    \<Rightarrow> error + pyacc" where
  "ms_loop d nbs dims [] mm = Inr mm"
| "ms_loop d nbs dims (nb # rest) mm =
     (let i = first_index nbs nb;
          dim_copy = py_del dims i @ [1]
      in case map_of d nb of
           None \<Rightarrow> Inl KeyError
         | Some m \<Rightarrow>
            (case np_rollaxis (np_tile m dim_copy) 0 i of
               Inl e \<Rightarrow> Inl e
             | Inr t \<Rightarrow>
                (case py_iop nf_add mm t of
                   Inl e \<Rightarrow> Inl e
                 | Inr mm' \<Rightarrow> ms_loop d nbs dims rest mm')))"

definition Factor_send_ms_msg :: "heap \<Rightarrow> node_id \<Rightarrow> node_id \<Rightarrow> error + heap" where
  "Factor_send_ms_msg h self other =
     (let nbs = filter (\<lambda>nb. \<not> nb = other) (neighbours (h self)) in
      case (if length nbs = 0 then map_sum id np_log (get_f (h self))
            else case num_states_list h nbs of
              Inl e \<Rightarrow> Inl e
            | Inr dims \<Rightarrow>
               (case ms_loop (in_msgs (h self)) nbs dims nbs (PyInt 0) of
                  Inl e \<Rightarrow> Inl e
                | Inr mm \<Rightarrow>
                   (case py_index (neighbours (h self)) other of
                      Inl e \<Rightarrow> Inl e
                    | Inr other_i \<Rightarrow>
                       (let f_axes = filter (\<lambda>i. \<not> i = other_i)
                                       [0..<length (neighbours (h self))]
                        in case get_f (h self) of
                             Inl e \<Rightarrow> Inl e
                           | Inr f \<Rightarrow>
                               (case np_binop nf_add (np_log f) (acc_array mm) of
                                  Inl e \<Rightarrow> Inl e
                                | Inr s \<Rightarrow> np_amax s f_axes))))) of
        Inl e \<Rightarrow> Inl e
      | Inr msg \<Rightarrow> Inr (deliver h self other msg))"

subsection \<open>Dispatch\<close>

text \<open>The base class raises in both send methods; the subclasses override them.\<close>

definition send_sp_msg :: "heap \<Rightarrow> node_id \<Rightarrow> node_id \<Rightarrow> error + heap" where
  "send_sp_msg h self other =
     (case kind (h self) of
        Node \<Rightarrow> Inl NotImplementedException
      | Variable \<Rightarrow> Variable_send_sp_msg h self other
      | Factor \<Rightarrow> Factor_send_sp_msg h self other)"

definition send_ms_msg :: "heap \<Rightarrow> node_id \<Rightarrow> node_id \<Rightarrow> error + heap" where
  "send_ms_msg h self other =
     (case kind (h self) of
        Node \<Rightarrow> Inl NotImplementedException
      | Variable \<Rightarrow> Variable_send_ms_msg h self other
      | Factor \<Rightarrow> Factor_send_ms_msg h self other)"

section \<open>The scheduler\<close>

text \<open>
  \<^verbatim>\<open>sum_product(node_list, max_sum)\<close>. Next to the heap the model carries a log,
  which the program does not have: the pair (sender, receiver) of every send that has
  returned, in order.
\<close>

type_synonym log = "(node_id \<times> node_id) list"

fun send_each :: "bool \<Rightarrow> node_id \<Rightarrow> node_id list \<Rightarrow> heap \<times> log \<Rightarrow> error + heap \<times> log" where
  "send_each max_sum node [] s = Inr s"
| "send_each max_sum node (neighbour # rest) (h, l) =
     (case (if max_sum then send_ms_msg h node neighbour else send_sp_msg h node neighbour) of
        Inl e \<Rightarrow> Inl e
      | Inr h' \<Rightarrow> send_each max_sum node rest (h', l @ [(node, neighbour)]))"

text \<open>
  One sweep over a list; \<open>seen\<close> is \<^verbatim>\<open>node_list[:i]\<close>, the nodes before the current one.
\<close>

fun sweep :: "bool \<Rightarrow> node_id list \<Rightarrow> node_id list \<Rightarrow> heap \<times> log \<Rightarrow> error + heap \<times> log" where
  "sweep max_sum seen [] s = Inr s"
| "sweep max_sum seen (node # rest) (h, l) =
     (case send_each max_sum node
             (filter (\<lambda>n. \<not> n \<in> set seen) (neighbours (h node))) (h, l) of
        Inl e \<Rightarrow> Inl e
      | Inr s' \<Rightarrow> sweep max_sum (seen @ [node]) rest s')"

fun set_pending :: "node_id list \<Rightarrow> heap \<Rightarrow> heap" where
  "set_pending [] h = h"
| "set_pending (node # rest) h =
     set_pending rest
       (if length (neighbours (h node)) = 1
        then h(node := (h node)\<lparr>pending := insert (neighbours (h node) ! 0) (pending (h node))\<rparr>)
        else h)"

definition sum_product :: "heap \<Rightarrow> node_id list \<Rightarrow> bool \<Rightarrow> error + heap \<times> log" where
  "sum_product h node_list max_sum =
     (case sweep max_sum [] node_list (h, []) of
        Inl e \<Rightarrow> Inl e
      | Inr (h1, l1) \<Rightarrow> sweep max_sum [] (rev node_list) (set_pending node_list h1, l1))"

text \<open>
  \<^verbatim>\<open>best_value\<close>: the dictionary's values are summed along the list axis and the
  first maximum's position is returned.
\<close>

definition best_value :: "heap \<Rightarrow> node_id \<Rightarrow> error + nat" where
  "best_value h variable =
     (case np_reduce_list nf_add (Fin 0) (map snd (in_msgs (h variable))) of
        Inl e \<Rightarrow> Inl e
      | Inr s \<Rightarrow> np_argmax s)"

section \<open>Notions of the specification\<close>

text \<open>
  A message over \<open>n\<close> states: an array with one axis of length \<open>n\<close>.
\<close>

definition is_vector :: "nat \<Rightarrow> ndarray \<Rightarrow> bool" where
  "is_vector n m = (shape m = [n] \<and> length (data m) = n)"

text \<open>
  The elementwise combination of a list of messages over \<open>n\<close> states: entry \<open>j\<close>
  combines the entries \<open>j\<close> of all messages (the product with \<open>nf_mul\<close> and \<open>Fin 1\<close>,
  the sum with \<open>nf_add\<close> and \<open>Fin 0\<close>).
\<close>

definition ew_fold ::
  "(npfloat \<Rightarrow> npfloat \<Rightarrow> npfloat) \<Rightarrow> npfloat \<Rightarrow> nat \<Rightarrow> ndarray list \<Rightarrow> ndarray" where
  "ew_fold opr unit n msgs =
     vec (map (\<lambda>j. foldl opr unit (map (\<lambda>m. data m ! j) msgs)) [0..<n])"

text \<open>
  The neighbours of a node other than \<open>other\<close>, in stored order (the specification's
  \<open>N\<close>); the inbox message stored for a neighbour; and the precondition that the inbox
  holds a message over \<open>n\<close> states for every node of a list.
\<close>

definition others :: "heap \<Rightarrow> node_id \<Rightarrow> node_id \<Rightarrow> node_id list" where
  "others h self other = filter (\<lambda>nb. \<not> nb = other) (neighbours (h self))"

definition inbox :: "heap \<Rightarrow> node_id \<Rightarrow> node_id \<Rightarrow> ndarray" where
  "inbox h self nb = the (map_of (in_msgs (h self)) nb)"

definition has_msgs :: "heap \<Rightarrow> node_id \<Rightarrow> node_id list \<Rightarrow> nat \<Rightarrow> bool" where
  "has_msgs h self nbs n =
     list_all (\<lambda>nb. case map_of (in_msgs (h self)) nb of
                      None \<Rightarrow> False
                    | Some m \<Rightarrow> is_vector n m) nbs"

text \<open>
  The heap that a call leaves behind, whether it returned or raised.
\<close>

definition heap_of :: "(error \<times> heap) + heap \<Rightarrow> heap" where
  "heap_of r = (case r of Inl (e, h) \<Rightarrow> h | Inr h \<Rightarrow> h)"

text \<open>
  A sequence of send calls, each given as (max-sum?, sender, receiver), run in order
  until one raises.
\<close>

fun run_sends :: "heap \<Rightarrow> (bool \<times> node_id \<times> node_id) list \<Rightarrow> error + heap" where
  "run_sends h [] = Inr h"
| "run_sends h ((max_sum, node, other) # rest) =
     (case (if max_sum then send_ms_msg h node other else send_sp_msg h node other) of
        Inl e \<Rightarrow> Inl e
      | Inr h' \<Rightarrow> run_sends h' rest)"

text \<open>
  Two node states that differ at most in the inbox and the pending set.
\<close>

definition same_attrs :: "node \<Rightarrow> node \<Rightarrow> bool" where
  "same_attrs m n = (name m = name n \<and> neighbours m = neighbours n \<and> kind m = kind n \<and>
     num_states m = num_states n \<and> latent m = latent n \<and> observed_state m = observed_state n \<and>
     factor_f m = factor_f n)"

text \<open>
  What one round of the constructor's loop does to the heap, and the object that the
  base constructor leaves before the loop starts.
\<close>

definition register :: "node_id \<Rightarrow> node_id \<Rightarrow> heap \<Rightarrow> heap" where
  "register self nb h =
     (let h1 = h(self := add_neighbour nb (h self)) in h1(nb := add_neighbour self (h1 nb)))"

definition fresh_factor :: "string \<Rightarrow> node" where
  "fresh_factor nm = \<lparr>name = nm, neighbours = [], in_msgs = [], pending = {},
                          kind = Factor, num_states = 0, latent = False,
                          observed_state = vec [], factor_f = None\<rparr>"

text \<open>
  For a Factor: the potential, and the axis of the potential that corresponds to a
  neighbour (its position in the stored neighbour list).
\<close>

definition potential :: "heap \<Rightarrow> node_id \<Rightarrow> ndarray" where
  "potential h self = the (factor_f (h self))"

definition axis_of :: "heap \<Rightarrow> node_id \<Rightarrow> node_id \<Rightarrow> nat" where
  "axis_of h self nb = first_index (neighbours (h self)) nb"

text \<open>
  The sum-product message of a factor as the specification describes it. The outer
  product of the messages from \<open>N\<close> has, at an index \<open>c\<close> over the axes of \<open>N\<close>, the
  product of the messages' entries. The potential is contracted against it over all
  axes but the receiver's: entry \<open>s\<close> of the result sums, over every index \<open>c\<close> of the
  other axes, the potential at \<open>c\<close> with \<open>s\<close> put in at the receiver's axis times the
  outer product at \<open>c\<close>.
\<close>

definition outer_product :: "ndarray list \<Rightarrow> nat list \<Rightarrow> npfloat" where
  "outer_product msgs c = foldl nf_mul (Fin 1) (map2 (\<lambda>m i. data m ! i) msgs c)"

definition sum_product_message :: "heap \<Rightarrow> node_id \<Rightarrow> node_id \<Rightarrow> ndarray" where
  "sum_product_message h self other =
     (let f = potential h self;
          a = axis_of h self other;
          msgs = map (inbox h self) (others h self other)
      in vec (map (\<lambda>s. nf_sum (map (\<lambda>c. nf_mul (item f (py_insert c a s)) (outer_product msgs c))
                                  (all_idx (py_del (shape f) a))))
                  [0..<shape f ! a]))"

text \<open>
  The max-sum message of a factor as the specification describes it. At a cell
  \<open>idx\<close> of the potential, every neighbour in \<open>N\<close> contributes the entry of its message
  at the cell's coordinate along that neighbour's own axis; the contributions are
  summed and added to the logarithm of the potential; entry \<open>s\<close> of the result is the
  maximum over all cells whose coordinate along the receiver's axis is \<open>s\<close>.
\<close>

definition max_sum_message :: "heap \<Rightarrow> node_id \<Rightarrow> node_id \<Rightarrow> ndarray" where
  "max_sum_message h self other =
     (let f = potential h self;
          a = axis_of h self other
      in vec (map (\<lambda>s. nf_maximum (map
                (\<lambda>c. let idx = py_insert c a s
                     in nf_add (nf_log (item f idx))
                          (nf_sum (map (\<lambda>nb. item (inbox h self nb) [idx ! axis_of h self nb])
                                       (others h self other))))
                (all_idx (py_del (shape f) a))))
              [0..<shape f ! a]))"

text \<open>
  The scheduler's precondition. A graph over the nodes of a list is well formed when it
  is as the constructors build it and the list names every node once: no node lists a
  neighbour twice, every neighbour is in the list and lists the node back, the
  neighbours of a variable are factors and those of a factor are variables, a
  variable's \<^verbatim>\<open>observed_state\<close> has \<^verbatim>\<open>num_states\<close> entries, and a factor's potential has
  one axis per neighbour, as long as that neighbour has states. The inboxes may hold
  messages of an earlier run: at most one per neighbour, each a vector over the states
  of the variable at that edge (\<open>edge_states\<close>).
\<close>

definition edge_states :: "heap \<Rightarrow> node_id \<Rightarrow> node_id \<Rightarrow> nat" where
  "edge_states h n k = (if kind (h n) = Variable then num_states (h n) else num_states (h k))"

definition node_ok :: "heap \<Rightarrow> node_id list \<Rightarrow> node_id \<Rightarrow> bool" where
  "node_ok h nodes n =
     (distinct (neighbours (h n)) \<and>
      list_all (\<lambda>nb. nb \<in> set nodes \<and> n \<in> set (neighbours (h nb)) \<and>
                     (if kind (h n) = Variable then kind (h nb) = Factor
                      else kind (h nb) = Variable))
               (neighbours (h n)) \<and>
      (case kind (h n) of
         Node \<Rightarrow> False
       | Variable \<Rightarrow> is_vector (num_states (h n)) (observed_state (h n))
       | Factor \<Rightarrow>
           (case factor_f (h n) of
              None \<Rightarrow> False
            | Some f \<Rightarrow> valid_array f \<and>
                        shape f = map (\<lambda>nb. num_states (h nb)) (neighbours (h n)))))"

definition inbox_ok :: "heap \<Rightarrow> node_id \<Rightarrow> bool" where
  "inbox_ok h n =
     (distinct (map fst (in_msgs (h n))) \<and>
      list_all (\<lambda>(k, m). k \<in> set (neighbours (h n)) \<and> is_vector (edge_states h n k) m)
               (in_msgs (h n)))"

definition well_formed :: "heap \<Rightarrow> node_id list \<Rightarrow> bool" where
  "well_formed h nodes =
     (distinct nodes \<and> list_all (\<lambda>n. node_ok h nodes n \<and> inbox_ok h n) nodes)"

text \<open>
  A list linearizes the graph from the leaves to the root when every node has at most
  one neighbour that does not occur before it in the list. With edges listed on both
  sides this leaves no cycle: the graph is a forest, a tree when it is connected.
\<close>

fun later_at_most_one :: "heap \<Rightarrow> node_id list \<Rightarrow> node_id list \<Rightarrow> bool" where
  "later_at_most_one h seen [] = True"
| "later_at_most_one h seen (n # rest) =
     (length (filter (\<lambda>x. \<not> x \<in> set seen) (neighbours (h n))) \<le> 1 \<and>
      later_at_most_one h (seen @ [n]) rest)"

definition linearization :: "heap \<Rightarrow> node_id list \<Rightarrow> bool" where
  "linearization h nodes = later_at_most_one h [] nodes"

text \<open>
  The scheduler's postcondition, for the heap \<open>h'\<close> and the log \<open>l\<close> that a run from \<open>h\<close>
  returns: every edge carried exactly one message in each direction (each pair of a
  node and one of its neighbours occurs once in the log), nothing else was sent, and
  every inbox holds exactly one message per neighbour.
\<close>

definition exchanged :: "heap \<Rightarrow> node_id list \<Rightarrow> heap \<Rightarrow> log \<Rightarrow> bool" where
  "exchanged h nodes h' l =
     ((\<forall>a \<in> set nodes. \<forall>b \<in> set (neighbours (h a)). count_list l (a, b) = 1) \<and>
      (\<forall>(a, b) \<in> set l. a \<in> set nodes \<and> b \<in> set (neighbours (h a))) \<and>
      (\<forall>v \<in> set nodes. neighbours (h' v) = neighbours (h v) \<and>
           distinct (map fst (in_msgs (h' v))) \<and>
           set (map fst (in_msgs (h' v))) = set (neighbours (h v))))"

section \<open>Notions used in the proofs\<close>

text \<open>
  An index within a shape; the length that broadcasting gives two compatible lengths;
  the \<open>j\<close>-th array that \<^verbatim>\<open>np.ix_\<close> returns for a list of vectors and the product
  of the first \<open>m\<close> of them, as \<^verbatim>\<open>reduce\<close> builds it; a list of arrays with one
  axis each; and the precondition of a factor's sum-product send: the potential is
  set and has one axis per neighbour, no neighbour is listed twice, the receiver is a
  neighbour, and the inbox holds, for every other neighbour, a vector as long as that
  neighbour's axis.
\<close>

definition valid_idx :: "nat list \<Rightarrow> nat list \<Rightarrow> bool" where
  "valid_idx sh idx = list_all2 (<) idx sh"

definition bmax :: "nat \<Rightarrow> nat \<Rightarrow> nat" where
  "bmax x y = (if x = y \<or> y = 1 then x else y)"

definition compat :: "nat \<Rightarrow> nat \<Rightarrow> bool" where
  "compat x y = (x = y \<or> x = 1 \<or> y = 1)"

definition ix_grid :: "ndarray list \<Rightarrow> nat \<Rightarrow> ndarray" where
  "ix_grid vs j = \<lparr>shape = replicate j 1 @ shape (vs ! j) @ replicate (length vs - j - 1) 1,
                   data = data (vs ! j)\<rparr>"

definition partial_outer :: "ndarray list \<Rightarrow> nat \<Rightarrow> ndarray" where
  "partial_outer vs m =
     tabulate (take m (map (\<lambda>v. length (data v)) vs) @ replicate (length vs - m) 1)
       (\<lambda>c. foldl nf_mul (data (vs ! 0) ! (c ! 0)) (map (\<lambda>j. data (vs ! j) ! (c ! j)) [1..<m]))"

definition vectors :: "ndarray list \<Rightarrow> bool" where
  "vectors vs = list_all (\<lambda>v. shape v = [length (data v)]) vs"

definition factor_ready :: "heap \<Rightarrow> node_id \<Rightarrow> node_id \<Rightarrow> bool" where
  "factor_ready h self other =
     (case factor_f (h self) of
        None \<Rightarrow> False
      | Some f \<Rightarrow>
          length (shape f) = length (neighbours (h self)) \<and>
          distinct (neighbours (h self)) \<and>
          other \<in> set (neighbours (h self)) \<and>
          list_all (\<lambda>nb. case map_of (in_msgs (h self)) nb of
                           None \<Rightarrow> False
                         | Some m \<Rightarrow> is_vector (shape f ! axis_of h self nb) m)
                   (others h self other))"

text \<open>
  For the scheduler: the senders whose message an inbox holds; \<open>c\<close> occurring before
  \<open>x\<close> in a list; the sends of one sweep, read off the neighbour lists alone; an inbox
  without a repeated sender; and what the sends of a sweep need: whenever a node has
  two distinct neighbours that are not among the nodes already visited, so that it
  sends to one of them, its inbox holds a message from the other.
\<close>

definition inbox_keys :: "heap \<Rightarrow> node_id \<Rightarrow> node_id set" where
  "inbox_keys h n = fst ` set (in_msgs (h n))"

definition precedes :: "'a list \<Rightarrow> 'a \<Rightarrow> 'a \<Rightarrow> bool" where
  "precedes xs c x = (\<exists>i j. i < j \<and> j < length xs \<and> xs ! i = c \<and> xs ! j = x)"

fun sweep_sends :: "(node_id \<Rightarrow> node_id list) \<Rightarrow> node_id list \<Rightarrow> node_id list \<Rightarrow> log" where
  "sweep_sends nbf seen [] = []"
| "sweep_sends nbf seen (node # rest) =
     map (Pair node) (filter (\<lambda>n. \<not> n \<in> set seen) (nbf node)) @ sweep_sends nbf (seen @ [node]) rest"

definition unique_keys :: "heap \<Rightarrow> node_id \<Rightarrow> bool" where
  "unique_keys h x = distinct (map fst (in_msgs (h x)))"

fun sends_ready :: "heap \<Rightarrow> node_id list \<Rightarrow> node_id list \<Rightarrow> bool" where
  "sends_ready h seen [] = True"
| "sends_ready h seen (n # rest) =
     ((\<forall>b\<in>set (neighbours (h n)). \<forall>c\<in>set (neighbours (h n)).
         b \<notin> set seen \<and> c \<notin> set seen \<and> b \<noteq> c \<longrightarrow> c \<in> inbox_keys h n) \<and>
      sends_ready h (seen @ [n]) rest)"

section \<open>Example graphs\<close>

definition blank :: node where
  "blank = \<lparr>name = [], neighbours = [], in_msgs = [], pending = {}, kind = Node,
            num_states = 0, latent = False, observed_state = vec [], factor_f = None\<rparr>"

text \<open>
  A binary variable 1 with three neighbours and a message from each, and a leaf
  variable 5.
\<close>

definition star :: heap where
  "star = (\<lambda>i. blank)
     (1 := \<lparr>name = ''X'', neighbours = [2, 3, 4],
            in_msgs = [(2, vec [Fin 2, Fin 3]), (3, vec [Fin 4, Fin 5]),
                       (4, vec [Fin 7, Fin 11])],
            pending = {}, kind = Variable, num_states = 2, latent = True,
            observed_state = np_ones 2, factor_f = None\<rparr>,
      5 := \<lparr>name = ''Y'', neighbours = [4], in_msgs = [], pending = {}, kind = Variable,
            num_states = 2, latent = True, observed_state = np_ones 2, factor_f = None\<rparr>)"

definition star_observed :: heap where
  "star_observed =
     star(1 := (star 1)\<lparr>latent := False, observed_state := vec [Fin 0.000001, Fin 1]\<rparr>)"

text \<open>A binary variable whose single neighbour has sent \<open>[1, 3]\<close>.\<close>

definition single :: heap where
  "single = (\<lambda>i. blank)
     (1 := \<lparr>name = ''X'', neighbours = [2], in_msgs = [(2, vec [Fin 1, Fin 3])],
            pending = {}, kind = Variable, num_states = 2, latent = True,
            observed_state = np_ones 2, factor_f = None\<rparr>)"

text \<open>A binary variable whose two inbox messages have an all-zero product.\<close>

definition cancelling :: heap where
  "cancelling = (\<lambda>i. blank)
     (1 := \<lparr>name = ''X'', neighbours = [2, 3],
            in_msgs = [(2, vec [Fin 0, Fin 1]), (3, vec [Fin 1, Fin 0])],
            pending = {}, kind = Variable, num_states = 2, latent = True,
            observed_state = np_ones 2, factor_f = None\<rparr>)"

text \<open>Two binary variables without edges, built by the constructor.\<close>

definition two_vars :: heap where
  "two_vars = Variable_init (Variable_init (\<lambda>i. blank) 1 ''X1'' 2) 2 ''X2'' 2"

text \<open>
  The chain of the specification's concrete scenario, built by the constructors:
  variables \<open>X1\<close> (1) and \<open>X2\<close> (2), the prior \<open>f1\<close> (3) on \<open>X1\<close> and the pairwise
  factor \<open>f12\<close> (4).
\<close>

definition chain :: heap where
  "chain = heap_of (Factor_init (heap_of (Factor_init
      (Variable_init (Variable_init (\<lambda>i. blank) 1 ''X1'' 2) 2 ''X2'' 2)
      3 ''f1'' (vec [Fin 0.5, Fin 0.5]) [1]))
      4 ''f12'' \<lparr>shape = [2, 2], data = [Fin 0.9, Fin 0.1, Fin 0.2, Fin 0.8]\<rparr> [1, 2])"

text \<open>
  A factor (3) with the all-ones potential over two binary variables (1 and 2), holding
  the message \<open>[0, 5]\<close> from variable 1.
\<close>

definition pair_graph :: heap where
  "pair_graph = (heap_of (Factor_init (Variable_init (Variable_init (\<lambda>i. blank) 1 ''X0'' 2) 2 ''X1'' 2)
       3 ''f'' \<lparr>shape = [2, 2], data = [Fin 1, Fin 1, Fin 1, Fin 1]\<rparr> [1, 2]))
     (3 := \<lparr>name = ''f'', neighbours = [1, 2], in_msgs = [(1, vec [Fin 0, Fin 5])],
            pending = {}, kind = Factor, num_states = 0, latent = False,
            observed_state = vec [], 
            factor_f = Some \<lparr>shape = [2, 2], data = [Fin 1, Fin 1, Fin 1, Fin 1]\<rparr>\<rparr>)"

text \<open>
  The same with a variable 2 of three states and the all-ones potential of shape
  \<open>[2, 3]\<close>; the message from variable 1 is \<open>[0, 0]\<close>.
\<close>

definition uneven_graph :: heap where
  "uneven_graph = (heap_of (Factor_init (Variable_init (Variable_init (\<lambda>i. blank) 1 ''X0'' 2) 2 ''X1'' 3)
       3 ''f'' \<lparr>shape = [2, 3], data = replicate 6 (Fin 1)\<rparr> [1, 2]))
     (3 := \<lparr>name = ''f'', neighbours = [1, 2], in_msgs = [(1, vec [Fin 0, Fin 0])],
            pending = {}, kind = Factor, num_states = 0, latent = False,
            observed_state = vec [], 
            factor_f = Some \<lparr>shape = [2, 3], data = replicate 6 (Fin 1)\<rparr>\<rparr>)"

text \<open>
  A factor (4) over variables with 2, 3 and 2 states (1, 2 and 3), its potential
  holding 1 to 12 in row-major order, with the messages \<open>[1, 2]\<close> from variable 1 and
  \<open>[1, 10]\<close> from variable 3.
\<close>

definition triple_graph :: heap where
  "triple_graph = (\<lambda>i. blank)
     (4 := \<lparr>name = ''f'', neighbours = [1, 2, 3],
            in_msgs = [(1, vec [Fin 1, Fin 2]), (3, vec [Fin 1, Fin 10])],
            pending = {}, kind = Factor, num_states = 0, latent = False,
            observed_state = vec [],
            factor_f = Some \<lparr>shape = [2, 3, 2],
                              data = map (\<lambda>i. Fin (real i)) [1..<13]\<rparr>\<rparr>)"

section \<open>Basic facts\<close>

lemmas upt_eval =
  upt_rec[of 0 "numeral n"] upt_rec[of "Suc m" "numeral n"] upt_rec[of 0 "Suc m"]
  upt_rec[of "Suc m" "Suc n"] upt_rec[of 0 0] upt_rec[of "Suc m" 0]
  upt_rec[of "numeral m" "Suc n"] for m n

lemma nf_mul_one [simp]: "nf_mul (Fin 1) x = x"
  by (cases x) simp_all

lemma nf_add_zero [simp]: "nf_add (Fin 0) x = x"
  by (cases x) simp_all

lemma all_idx_one: "all_idx [n] = map (\<lambda>i. [i]) [0..<n]"
  by (simp add: map_concat comp_def concat_map_singleton)

lemma bc_dims_same: "bc_dims xs xs = Some xs"
  by (induction xs) auto

lemma broadcast_shapes_same: "broadcast_shapes s s = Some s"
  by (simp add: broadcast_shapes_def bc_dims_same)

lemma broadcast_shapes_scalar: "broadcast_shapes [] s = Some s"
  by (simp add: broadcast_shapes_def)

lemma item_vector: "shape a = [n] \<Longrightarrow> item a [i] = data a ! i"
  by (simp add: item_def)

lemma bc_index_vector: "i < n \<Longrightarrow> bc_index [n] [i] = [i]"
  by (simp add: bc_index_def)

lemma vec_data: "is_vector n a \<Longrightarrow> vec (data a) = a"
  by (cases a) (simp add: is_vector_def vec_def)

lemma vec_nth: "is_vector n a \<Longrightarrow> vec (map (\<lambda>j. data a ! j) [0..<n]) = a"
  by (cases a) (auto simp: is_vector_def vec_def map_nth)

lemma item_scalar: "item (scalar x) [] = x"
  by (simp add: item_def scalar_def)

lemma np_binop_vec:
  assumes "is_vector n a" "is_vector n b"
  shows "np_binop opr a b = Inr (vec (map2 opr (data a) (data b)))"
proof -
  have "map (\<lambda>idx. opr (item a (bc_index [n] idx)) (item b (bc_index [n] idx))) (all_idx [n])
        = map2 opr (data a) (data b)"
    using assms
    by (intro nth_equalityI) (simp_all add: all_idx_one is_vector_def item_vector bc_index_vector)
  then show ?thesis
    using assms by (simp add: np_binop_def is_vector_def broadcast_shapes_same tabulate_def vec_def)
qed

lemma np_binop_scalar_vec:
  assumes "is_vector n b"
  shows "np_binop opr (scalar x) b = Inr (vec (map (opr x) (data b)))"
proof -
  have "map (\<lambda>idx. opr (item (scalar x) (bc_index [] idx)) (item b (bc_index [n] idx))) (all_idx [n])
        = map (opr x) (data b)"
    using assms
    by (intro nth_equalityI)
       (simp_all add: all_idx_one is_vector_def item_vector bc_index_vector item_scalar bc_index_def[of "[]"])
  then show ?thesis
    using assms by (simp add: np_binop_def is_vector_def broadcast_shapes_scalar tabulate_def vec_def scalar_def)
qed

lemma is_vector_vec: "is_vector n (vec xs) = (length xs = n)"
  by (auto simp: is_vector_def vec_def)

lemma py_iop_int:
  "is_vector n b \<Longrightarrow> py_iop opr (PyInt k) b = Inr (PyArr (vec (map (opr (Fin (of_int k))) (data b))))"
  by (simp add: py_iop_def np_binop_scalar_vec)

lemma py_iop_arr:
  "is_vector n a \<Longrightarrow> is_vector n b \<Longrightarrow> py_iop opr (PyArr a) b = Inr (PyArr (vec (map2 opr (data a) (data b))))"
  by (simp add: py_iop_def np_inplace_def np_binop_vec is_vector_def broadcast_shapes_same)

lemma has_msgs_Cons:
  "has_msgs h self (nb # nbs) n = (map_of (in_msgs (h self)) nb = Some (inbox h self nb) \<and> is_vector n (inbox h self nb) \<and> has_msgs h self nbs n)"
  by (auto simp: has_msgs_def inbox_def split: option.splits)

lemma has_msgs_Nil [simp]: "has_msgs h self [] n"
  by (simp add: has_msgs_def)

lemma getitems_has_msgs:
  "has_msgs h self nbs n \<Longrightarrow> getitems (in_msgs (h self)) nbs = Inr (map (inbox h self) nbs)"
  by (induction nbs) (auto simp: has_msgs_Cons)

lemma has_msgs_vectors:
  "has_msgs h self nbs n \<Longrightarrow> list_all (is_vector n) (map (inbox h self) nbs)"
  by (induction nbs) (auto simp: has_msgs_Cons)

lemma ew_fold_Cons:
  "ew_fold opr unit n (m # ms) = vec (map (\<lambda>j. foldl opr (opr unit (data m ! j)) (map (\<lambda>m. data m ! j) ms)) [0..<n])"
  by (simp add: ew_fold_def)

lemma foldl_ew:
  assumes "is_vector n v" "list_all (is_vector n) vs"
  shows "foldl (ew opr) v vs = vec (map (\<lambda>j. foldl opr (data v ! j) (map (\<lambda>m. data m ! j) vs)) [0..<n])"
  using assms
proof (induction vs arbitrary: v)
  case Nil
  then show ?case by (simp add: vec_nth)
next
  case (Cons w ws)
  have v': "is_vector n (ew opr v w)"
    using Cons.prems by (simp add: ew_def is_vector_def)
  have d: "\<And>j. j < n \<Longrightarrow> data (ew opr v w) ! j = opr (data v ! j) (data w ! j)"
    using Cons.prems by (simp add: ew_def is_vector_def)
  have "foldl (ew opr) v (w # ws) = foldl (ew opr) (ew opr v w) ws"
    by simp
  also have "\<dots> = vec (map (\<lambda>j. foldl opr (data (ew opr v w) ! j) (map (\<lambda>m. data m ! j) ws)) [0..<n])"
    using Cons.IH[OF v'] Cons.prems by simp
  also have "\<dots> = vec (map (\<lambda>j. foldl opr (data v ! j) (map (\<lambda>m. data m ! j) (w # ws))) [0..<n])"
    by (simp add: vec_def d)
  finally show ?case .
qed

lemma np_reduce_list_vectors:
  assumes "list_all (is_vector n) vs" "vs \<noteq> []" "\<And>x. opr unit x = x"
  shows "np_reduce_list opr unit vs = Inr (ew_fold opr unit n vs)"
proof (cases vs)
  case Nil
  then show ?thesis using assms by simp
next
  case (Cons v ws)
  have "list_all (\<lambda>w. shape w = shape v) ws"
    using assms(1) Cons by (auto simp: list_all_iff is_vector_def)
  then show ?thesis
    using assms Cons by (simp add: np_reduce_list_def foldl_ew ew_fold_Cons)
qed

lemma iop_loop_arr:
  assumes "is_vector n a" "has_msgs h self nbs n"
  shows "iop_loop opr (in_msgs (h self)) nbs (PyArr a)
         = Inr (PyArr (vec (map (\<lambda>j. foldl opr (data a ! j) (map (\<lambda>m. data m ! j) (map (inbox h self) nbs))) [0..<n])))"
  using assms
proof (induction nbs arbitrary: a)
  case Nil
  then show ?case by (simp add: vec_nth)
next
  case (Cons nb nbs)
  let ?m = "inbox h self nb"
  let ?a' = "vec (map2 opr (data a) (data ?m))"
  have m: "map_of (in_msgs (h self)) nb = Some ?m" "is_vector n ?m" "has_msgs h self nbs n"
    using Cons.prems by (simp_all add: has_msgs_Cons)
  have a': "is_vector n ?a'"
    using m Cons.prems by (simp add: is_vector_def vec_def)
  have d: "\<And>j. j < n \<Longrightarrow> data ?a' ! j = opr (data a ! j) (data ?m ! j)"
    using m Cons.prems by (simp add: is_vector_def vec_def)
  have "iop_loop opr (in_msgs (h self)) (nb # nbs) (PyArr a)
        = iop_loop opr (in_msgs (h self)) nbs (PyArr ?a')"
    using m Cons.prems(1) by (simp add: py_iop_arr)
  also have "\<dots> = Inr (PyArr (vec (map (\<lambda>j. foldl opr (data ?a' ! j)
                 (map (\<lambda>m. data m ! j) (map (inbox h self) nbs))) [0..<n])))"
    by (rule Cons.IH[OF a' m(3)])
  also have "\<dots> = Inr (PyArr (vec (map (\<lambda>j. foldl opr (data a ! j)
                 (map (\<lambda>m. data m ! j) (map (inbox h self) (nb # nbs)))) [0..<n])))"
    using m(2) Cons.prems(1) by (simp add: vec_def is_vector_def)
  finally show ?case .
qed

lemma iop_loop_int:
  assumes "has_msgs h self nbs n" "nbs \<noteq> []" "\<And>x. opr (Fin (of_int k)) x = x"
  shows "iop_loop opr (in_msgs (h self)) nbs (PyInt k) = Inr (PyArr (ew_fold opr (Fin (of_int k)) n (map (inbox h self) nbs)))"
proof (cases nbs)
  case Nil
  then show ?thesis using assms by simp
next
  case (Cons nb rest)
  let ?m = "inbox h self nb"
  have m: "map_of (in_msgs (h self)) nb = Some ?m" "is_vector n ?m" "has_msgs h self rest n"
    using assms Cons by (simp_all add: has_msgs_Cons)
  have eq: "vec (map (opr (Fin (of_int k))) (data ?m)) = ?m"
  proof -
    have "opr (Fin (of_int k)) = (\<lambda>x. x)" using assms(3) by (intro ext)
    then show ?thesis using vec_data[OF m(2)] by simp
  qed
  show ?thesis
    using m Cons iop_loop_arr[OF m(2) m(3)] assms(3)
    by (simp add: py_iop_int eq ew_fold_Cons)
qed

lemma others_empty: "set (neighbours (h self)) = {other} \<Longrightarrow> others h self other = []"
  by (auto simp: others_def filter_empty_conv)

text \<open>Unfolding everything evaluates the program on a concrete graph.\<close>

lemmas np_defs = item_def tabulate_def scalar_def vec_def np_ones_def np_zeros_def np_log_def
  broadcast_shapes_def bc_index_def np_binop_def np_inplace_def py_iop_def first_index_def
  py_index_def py_del_def py_insert_def np_tile_def np_transpose_def np_rollaxis_def
  merge_idx_def np_amax_def nf_sum_def np_tensordot_def np_ix_def py_reduce_multiply_def
  ew_def np_reduce_list_def np_argmax_def np_fill_def np_setitem_def py_sum_def acc_array_def

lemmas node_defs = Node_reset_def add_neighbour_def receive_msg_def deliver_def
  Variable_init_def reset_def set_observed_def set_latent_def marginal_def
  Variable_send_sp_msg_def Variable_send_ms_msg_def Factor_init_def get_f_def
  Factor_send_sp_msg_def Factor_send_ms_msg_def send_sp_msg_def send_ms_msg_def
  sum_product_def best_value_def heap_of_def blank_def

text \<open>
  What a delivery (\<^verbatim>\<open>other.receive_msg(self, msg); self.pending.discard(other)\<close>) does
  to the inboxes and to the pending sets.
\<close>

lemma deliver_in_msgs:
  "in_msgs (deliver h self other msg x) =
     (if x = other then AList.update self msg (in_msgs (h other)) else in_msgs (h x))"
  by (simp add: deliver_def receive_msg_def Let_def)

lemma deliver_inbox: "map_of (in_msgs (deliver h self other msg other)) self = Some msg"
  by (simp add: deliver_in_msgs update_conv')

lemma deliver_inbox_rest:
  "nb \<noteq> self \<Longrightarrow>
   map_of (in_msgs (deliver h self other msg other)) nb = map_of (in_msgs (h other)) nb"
  by (simp add: deliver_in_msgs update_conv')

lemma deliver_pending:
  "pending (deliver h self other msg x) =
     (if x = self
      then (if self = other then pending (h self) \<union> (set (neighbours (h self)) - {self})
            else pending (h self)) - {other}
      else if x = other then pending (h other) \<union> (set (neighbours (h other)) - {self})
      else pending (h x))"
  by (simp add: deliver_def receive_msg_def Let_def)

section \<open>Variable messages\<close>

text \<open>
  C4. \<^verbatim>\<open>Variable.send_sp_msg\<close>: an observed variable delivers \<^verbatim>\<open>observed_state\<close>,
  whatever the inbox holds; a latent variable whose only neighbour is the receiver
  delivers the all-ones vector of length \<^verbatim>\<open>num_states\<close>; a latent variable with
  other neighbours, holding a message over \<open>n\<close> states from each of them, delivers the
  elementwise product of those messages. In each case the call returns, and in the heap
  it leaves the receiver's inbox maps the sender to that message.
\<close>

theorem Variable_send_sp_msg_cases:
  assumes "kind (h self) = Variable"
  shows "(\<not> latent (h self) \<longrightarrow>
            (\<exists>h'. send_sp_msg h self other = Inr h' \<and>
                  h' = deliver h self other
                         (observed_state (h self)) \<and>
                  map_of (in_msgs (h' other)) self
                    = Some (observed_state (h self)))) \<and>
         (latent (h self) \<and> set (neighbours (h self)) = {other} \<longrightarrow>
            (\<exists>h'. send_sp_msg h self other = Inr h' \<and>
                  h' = deliver h self other
                         (np_ones (num_states (h self))) \<and>
                  map_of (in_msgs (h' other)) self
                    = Some (np_ones (num_states (h self))))) \<and>
         (latent (h self) \<and> others h self other \<noteq> [] \<and> has_msgs h self (others h self other) n \<longrightarrow>
            (\<exists>h'. send_sp_msg h self other = Inr h' \<and>
                  h' = deliver h self other
                         (ew_fold nf_mul (Fin 1) n (map (inbox h self) (others h self other))) \<and>
                  map_of (in_msgs (h' other)) self
                    = Some (ew_fold nf_mul (Fin 1) n (map (inbox h self) (others h self other)))))"
proof (intro conjI impI)
  assume "\<not> latent (h self)"
  then show "\<exists>h'. send_sp_msg h self other = Inr h' \<and>
              h' = deliver h self other
                     (observed_state (h self)) \<and>
              map_of (in_msgs (h' other)) self
                = Some (observed_state (h self))"
    using assms
    by (simp add: send_sp_msg_def Variable_send_sp_msg_def deliver_def receive_msg_def update_conv' Let_def)
next
  assume "latent (h self) \<and> set (neighbours (h self)) = {other}"
  then show "\<exists>h'. send_sp_msg h self other = Inr h' \<and>
              h' = deliver h self other
                     (np_ones (num_states (h self))) \<and>
              map_of (in_msgs (h' other)) self
                = Some (np_ones (num_states (h self)))"
    using assms others_empty[of h self other]
    by (simp add: send_sp_msg_def Variable_send_sp_msg_def others_def deliver_def receive_msg_def update_conv' Let_def)
next
  assume a: "latent (h self) \<and> others h self other \<noteq> [] \<and> has_msgs h self (others h self other) n"
  then have "np_reduce_list nf_mul (Fin 1) (map (inbox h self) (others h self other))
             = Inr (ew_fold nf_mul (Fin 1) n (map (inbox h self) (others h self other)))"
    by (intro np_reduce_list_vectors has_msgs_vectors) simp_all
  then have "send_sp_msg h self other =
      Inr (deliver h self other (ew_fold nf_mul (Fin 1) n (map (inbox h self) (others h self other))))"
    using assms a getitems_has_msgs[of h self "others h self other" n]
    by (simp add: send_sp_msg_def Variable_send_sp_msg_def others_def[symmetric] Let_def)
  then show "\<exists>h'. send_sp_msg h self other = Inr h' \<and>
              h' = deliver h self other
                     (ew_fold nf_mul (Fin 1) n (map (inbox h self) (others h self other))) \<and>
              map_of (in_msgs (h' other)) self
                = Some (ew_fold nf_mul (Fin 1) n (map (inbox h self) (others h self other)))"
    by (simp add: deliver_def receive_msg_def update_conv' Let_def)
qed

theorem Variable_send_sp_msg_cases_witness:
  "(\<exists>h'. send_sp_msg star_observed 1 4 = Inr h' \<and> h' = deliver star_observed 1 4 (vec [Fin 0.000001, Fin 1]) \<and>
         map_of (in_msgs (h' 4)) 1 = Some (vec [Fin 0.000001, Fin 1])) \<and>
   (\<exists>h'. send_sp_msg star 5 4 = Inr h' \<and> h' = deliver star 5 4 (np_ones 2) \<and>
         map_of (in_msgs (h' 4)) 5 = Some (np_ones 2)) \<and>
   (\<exists>h'. send_sp_msg star 1 4 = Inr h' \<and> h' = deliver star 1 4 (vec [Fin 8, Fin 15]) \<and>
         map_of (in_msgs (h' 4)) 1 = Some (vec [Fin 8, Fin 15]))"
  using Variable_send_sp_msg_cases[of star_observed 1 4 2]
        Variable_send_sp_msg_cases[of star 5 4 2]
        Variable_send_sp_msg_cases[of star 1 4 2]
  by (simp add: star_observed_def star_def others_def has_msgs_def inbox_def is_vector_def vec_def ew_fold_def upt_eval)

text \<open>
  C5. \<^verbatim>\<open>Variable.send_ms_msg\<close> has the same three cases; the leaf message is the
  all-zero vector and the last case delivers the elementwise sum. Again the call returns
  and the receiver's inbox maps the sender to the message.
\<close>

theorem Variable_send_ms_msg_cases:
  assumes "kind (h self) = Variable"
  shows "(\<not> latent (h self) \<longrightarrow>
            (\<exists>h'. send_ms_msg h self other = Inr h' \<and>
                  h' = deliver h self other
                         (observed_state (h self)) \<and>
                  map_of (in_msgs (h' other)) self
                    = Some (observed_state (h self)))) \<and>
         (latent (h self) \<and> set (neighbours (h self)) = {other} \<longrightarrow>
            (\<exists>h'. send_ms_msg h self other = Inr h' \<and>
                  h' = deliver h self other
                         (np_zeros (num_states (h self))) \<and>
                  map_of (in_msgs (h' other)) self
                    = Some (np_zeros (num_states (h self))))) \<and>
         (latent (h self) \<and> others h self other \<noteq> [] \<and> has_msgs h self (others h self other) n \<longrightarrow>
            (\<exists>h'. send_ms_msg h self other = Inr h' \<and>
                  h' = deliver h self other
                         (ew_fold nf_add (Fin 0) n (map (inbox h self) (others h self other))) \<and>
                  map_of (in_msgs (h' other)) self
                    = Some (ew_fold nf_add (Fin 0) n (map (inbox h self) (others h self other)))))"
proof (intro conjI impI)
  assume "\<not> latent (h self)"
  then show "\<exists>h'. send_ms_msg h self other = Inr h' \<and>
              h' = deliver h self other
                     (observed_state (h self)) \<and>
              map_of (in_msgs (h' other)) self
                = Some (observed_state (h self))"
    using assms
    by (simp add: send_ms_msg_def Variable_send_ms_msg_def deliver_def receive_msg_def update_conv' Let_def)
next
  assume "latent (h self) \<and> set (neighbours (h self)) = {other}"
  then show "\<exists>h'. send_ms_msg h self other = Inr h' \<and>
              h' = deliver h self other
                     (np_zeros (num_states (h self))) \<and>
              map_of (in_msgs (h' other)) self
                = Some (np_zeros (num_states (h self)))"
    using assms others_empty[of h self other]
    by (simp add: send_ms_msg_def Variable_send_ms_msg_def others_def acc_array_def deliver_def receive_msg_def update_conv' Let_def)
next
  assume a: "latent (h self) \<and> others h self other \<noteq> [] \<and> has_msgs h self (others h self other) n"
  then have "iop_loop nf_add (in_msgs (h self)) (others h self other) (PyInt 0)
             = Inr (PyArr (ew_fold nf_add (Fin 0) n (map (inbox h self) (others h self other))))"
    using iop_loop_int[of h self "others h self other" n nf_add 0] by simp
  then have "send_ms_msg h self other =
      Inr (deliver h self other (ew_fold nf_add (Fin 0) n (map (inbox h self) (others h self other))))"
    using assms a
    by (simp add: send_ms_msg_def Variable_send_ms_msg_def others_def[symmetric] Let_def acc_array_def)
  then show "\<exists>h'. send_ms_msg h self other = Inr h' \<and>
              h' = deliver h self other
                     (ew_fold nf_add (Fin 0) n (map (inbox h self) (others h self other))) \<and>
              map_of (in_msgs (h' other)) self
                = Some (ew_fold nf_add (Fin 0) n (map (inbox h self) (others h self other)))"
    by (simp add: deliver_def receive_msg_def update_conv' Let_def)
qed

theorem Variable_send_ms_msg_cases_witness:
  "(\<exists>h'. send_ms_msg star_observed 1 4 = Inr h' \<and> h' = deliver star_observed 1 4 (vec [Fin 0.000001, Fin 1]) \<and>
         map_of (in_msgs (h' 4)) 1 = Some (vec [Fin 0.000001, Fin 1])) \<and>
   (\<exists>h'. send_ms_msg star 5 4 = Inr h' \<and> h' = deliver star 5 4 (np_zeros 2) \<and>
         map_of (in_msgs (h' 4)) 5 = Some (np_zeros 2)) \<and>
   (\<exists>h'. send_ms_msg star 1 4 = Inr h' \<and> h' = deliver star 1 4 (vec [Fin 6, Fin 8]) \<and>
         map_of (in_msgs (h' 4)) 1 = Some (vec [Fin 6, Fin 8]))"
  using Variable_send_ms_msg_cases[of star_observed 1 4 2]
        Variable_send_ms_msg_cases[of star 5 4 2]
        Variable_send_ms_msg_cases[of star 1 4 2]
  by (simp add: star_observed_def star_def others_def has_msgs_def inbox_def is_vector_def vec_def ew_fold_def upt_eval)

lemma send_sp_msg_deliver:
  "send_sp_msg h a b = Inr h' \<Longrightarrow> \<exists>msg. h' = deliver h a b msg"
  by (auto simp: send_sp_msg_def Variable_send_sp_msg_def Factor_send_sp_msg_def Let_def
           split: node_kind.splits if_splits sum.splits)

lemma send_ms_msg_deliver:
  "send_ms_msg h a b = Inr h' \<Longrightarrow> \<exists>msg. h' = deliver h a b msg"
  by (auto simp: send_ms_msg_def Variable_send_ms_msg_def Factor_send_ms_msg_def Let_def
           split: node_kind.splits if_splits sum.splits)

lemma deliver_attrs: "same_attrs (deliver h a b msg x) (h x)"
  by (simp add: deliver_def receive_msg_def same_attrs_def Let_def)

lemma run_sends_attrs: "run_sends h ss = Inr h' \<Longrightarrow> same_attrs (h' x) (h x)"
proof (induction ss arbitrary: h)
  case Nil
  then show ?case by (simp add: same_attrs_def)
next
  case (Cons s ss)
  obtain ms a b where s: "s = (ms, a, b)" by (cases s)
  from Cons.prems s obtain h1 where
    h1: "(if ms then send_ms_msg h a b else send_sp_msg h a b) = Inr h1" "run_sends h1 ss = Inr h'"
    by (auto split: sum.splits)
  then obtain msg where "h1 = deliver h a b msg"
    using send_sp_msg_deliver send_ms_msg_deliver by (metis (full_types))
  then have "same_attrs (h1 x) (h x)" by (simp add: deliver_attrs)
  moreover have "same_attrs (h' x) (h1 x)" using Cons.IH[OF h1(2)] .
  ultimately show ?case by (simp add: same_attrs_def)
qed

lemma reset_observed:
  assumes "kind (h v) = Variable"
  shows "\<not> latent (reset (heap_of (set_observed h v k)) v v)"
    "observed_state (reset (heap_of (set_observed h v k)) v v) = np_ones (num_states (h v))"
    "kind (reset (heap_of (set_observed h v k)) v v) = Variable"
  using assms
  by (auto simp: reset_def set_observed_def heap_of_def Node_reset_def Let_def split: sum.splits)

section \<open>Evidence and reset\<close>

text \<open>
  C10. \<^verbatim>\<open>reset\<close> leaves the latent flag as it is. After \<^verbatim>\<open>set_observed(k)\<close> (whether
  it returned or raised on a bad index) and \<^verbatim>\<open>reset()\<close>, and after any further
  sends in the graph, the variable is still marked observed, its \<^verbatim>\<open>observed_state\<close> is
  all ones, and both send operations deliver that all-ones vector to any receiver.
\<close>

theorem reset_keeps_observed:
  assumes "kind (h v) = Variable"
      and "run_sends (reset (heap_of (set_observed h v k)) v) sends = Inr h'"
  shows "latent (reset h0 v v) = latent (h0 v) \<and>
         \<not> latent (h' v) \<and> observed_state (h' v) = np_ones (num_states (h v)) \<and>
         (\<forall>to. send_sp_msg h' v to = Inr (deliver h' v to (np_ones (num_states (h v))))) \<and>
         (\<forall>to. send_ms_msg h' v to = Inr (deliver h' v to (np_ones (num_states (h v)))))"
proof -
  have 0: "latent (reset h0 v v) = latent (h0 v)"
    by (simp add: reset_def Node_reset_def)
  have a: "same_attrs (h' v) (reset (heap_of (set_observed h v k)) v v)"
    using run_sends_attrs[OF assms(2)] .
  then have 1: "\<not> latent (h' v)" "observed_state (h' v) = np_ones (num_states (h v))"
    "kind (h' v) = Variable"
    using reset_observed[of h v k] assms(1) by (simp_all add: same_attrs_def)
  then show ?thesis
    using 0 by (simp add: send_sp_msg_def send_ms_msg_def Variable_send_sp_msg_def Variable_send_ms_msg_def)
qed

theorem reset_keeps_observed_witness:
  "\<not> latent (deliver (deliver (reset (heap_of (set_observed star 1 0)) 1) 1 2 (np_ones 2)) 1 3 (np_ones 2) 1) \<and>
   send_sp_msg (deliver (deliver (reset (heap_of (set_observed star 1 0)) 1) 1 2 (np_ones 2)) 1 3 (np_ones 2)) 1 4
     = Inr (deliver (deliver (deliver (reset (heap_of (set_observed star 1 0)) 1) 1 2 (np_ones 2)) 1 3 (np_ones 2)) 1 4 (np_ones 2))"
  using reset_keeps_observed[of star 1 0 "[(False, 1, 2), (True, 1, 3)]"
      "deliver (deliver (reset (heap_of (set_observed star 1 0)) 1) 1 2 (np_ones 2)) 1 3 (np_ones 2)" star]
  by (simp add: star_def send_sp_msg_def send_ms_msg_def Variable_send_sp_msg_def Variable_send_ms_msg_def
      reset_def set_observed_def heap_of_def Node_reset_def Let_def np_setitem_def np_fill_def np_ones_def vec_def
      deliver_def receive_msg_def upt_eval)

section \<open>Marginals\<close>

lemma broadcast_shapes_scalar2: "broadcast_shapes s [] = Some s"
  by (cases "rev s") (simp_all add: broadcast_shapes_def)

lemma np_binop_vec_scalar:
  assumes "is_vector n a"
  shows "np_binop opr a (scalar x) = Inr (vec (map (\<lambda>y. opr y x) (data a)))"
proof -
  have "map (\<lambda>idx. opr (item a (bc_index [n] idx)) (item (scalar x) (bc_index [] idx))) (all_idx [n])
        = map (\<lambda>y. opr y x) (data a)"
    using assms
    by (intro nth_equalityI)
       (simp_all add: all_idx_one is_vector_def item_vector bc_index_vector item_scalar bc_index_def[of "[]"])
  then show ?thesis
    using assms by (simp add: np_binop_def is_vector_def broadcast_shapes_scalar2 tabulate_def vec_def scalar_def)
qed

lemma py_sum_vector:
  assumes "is_vector n a"
  shows "py_sum (PyArr a) = Inr (scalar (nf_sum (data a)))"
proof (cases "n = 0")
  case True
  then show ?thesis using assms by (simp add: py_sum_def is_vector_def nf_sum_def)
next
  case False
  have "map (\<lambda>i. item a [i]) [0..<n] = data a"
    using assms by (intro nth_equalityI) (simp_all add: is_vector_def item_vector)
  then show ?thesis
    using assms False by (simp add: py_sum_def is_vector_def tabulate_def scalar_def)
qed

lemma is_vector_ew_fold: "is_vector n (ew_fold opr unit n msgs)"
  by (simp add: ew_fold_def is_vector_vec)

text \<open>What marginal computes on a well-shaped inbox.\<close>

lemma marginal_value:
  assumes "neighbours (h self) \<noteq> []" "has_msgs h self (neighbours (h self)) n"
  defines "P \<equiv> ew_fold nf_mul (Fin 1) n (map (inbox h self) (neighbours (h self)))"
  shows "marginal h self None
           = Inr (vec (map (\<lambda>p. nf_div p (nf_sum (data P))) (data P)), scalar (nf_sum (data P)))"
    and "nf_truthy z \<Longrightarrow> marginal h self (Some z) = Inr (vec (map (\<lambda>p. nf_div p z) (data P)), scalar z)"
    and "\<not> nf_truthy z \<Longrightarrow> marginal h self (Some z) = marginal h self None"
proof -
  have l: "iop_loop nf_mul (in_msgs (h self)) (neighbours (h self)) (PyInt 1) = Inr (PyArr P)"
    using iop_loop_int[OF assms(2,1), of nf_mul 1] by (simp add: P_def)
  have v: "is_vector n P" by (simp add: P_def is_vector_ew_fold)
  show "marginal h self None
           = Inr (vec (map (\<lambda>p. nf_div p (nf_sum (data P))) (data P)), scalar (nf_sum (data P)))"
    by (simp add: marginal_def l py_sum_vector[OF v] acc_array_def np_binop_vec_scalar[OF v])
  show "nf_truthy z \<Longrightarrow> marginal h self (Some z) = Inr (vec (map (\<lambda>p. nf_div p z) (data P)), scalar z)"
    by (simp add: marginal_def l acc_array_def np_binop_vec_scalar[OF v])
  show "\<not> nf_truthy z \<Longrightarrow> marginal h self (Some z) = marginal h self None"
    by (simp add: marginal_def l)
qed

lemma nf_sum_zeros: "nf_sum (replicate n (Fin 0)) = Fin 0"
  by (induction n) (simp_all add: nf_sum_def)

text \<open>
  C6. The docstring of \<^verbatim>\<open>marginal\<close> promises that the returned \<open>Z\<close> is the one
  passed in unless \<^verbatim>\<open>None\<close> was passed. The test \<^verbatim>\<open>if not Z\<close> also holds for a
  zero: with inbox \<open>[1, 3]\<close> and \<open>Z = 0\<close> the call returns the freshly computed
  constant 4 and the distribution normalised by it, not \<open>([inf, inf], 0)\<close>.
\<close>

theorem marginal_zero_Z_recomputed:
  "marginal single 1 (Some (Fin 0)) = Inr (vec [Fin (1/4), Fin (3/4)], scalar (Fin 4)) \<and>
   marginal single 1 (Some (Fin 0)) \<noteq> Inr (vec [PInf, PInf], scalar (Fin 0))"
  by (simp add: marginal_value(3) marginal_value(1)[where n = 2] single_def has_msgs_def
      is_vector_def vec_def ew_fold_def inbox_def upt_eval nf_sum_def scalar_def)

text \<open>
  C7 as the claim states it fails: with an all-zero product \<^verbatim>\<open>marginal()\<close> raises
  nothing and returns nan entries.
\<close>

theorem marginal_all_zero_counterexample:
  "(\<forall>e. marginal cancelling 1 None \<noteq> Inl e) \<and>
   marginal cancelling 1 None = Inr (vec [NaN, NaN], scalar (Fin 0))"
  by (simp add: marginal_value(1)[where n = 2] cancelling_def has_msgs_def is_vector_def vec_def
      ew_fold_def inbox_def upt_eval nf_sum_def)

text \<open>
  C7, amended. \<^verbatim>\<open>marginal()\<close> has no guard: for a variable with at least one
  neighbour whose inbox messages over \<open>n\<close> states have an all-zero product, the call
  returns normally, with every entry of the distribution nan and the constant 0.
\<close>

theorem marginal_all_zero:
  assumes "neighbours (h self) \<noteq> []" "has_msgs h self (neighbours (h self)) n"
      and "ew_fold nf_mul (Fin 1) n (map (inbox h self) (neighbours (h self))) = vec (replicate n (Fin 0))"
  shows "marginal h self None = Inr (vec (replicate n NaN), scalar (Fin 0))"
  using marginal_value(1)[OF assms(1,2)] assms(3)
  by (simp add: vec_def nf_sum_zeros map_replicate_const)

theorem marginal_all_zero_witness:
  "marginal cancelling 1 None = Inr (vec [NaN, NaN], scalar (Fin 0))"
  using marginal_all_zero[of cancelling 1 2]
  by (simp add: cancelling_def has_msgs_def is_vector_def vec_def ew_fold_def inbox_def upt_eval numeral_2_eq_2)

section \<open>Factor construction\<close>

lemma register_other:
  "self \<noteq> x \<Longrightarrow> register self nb h x =
     (h x)\<lparr>neighbours := neighbours (h x) @ (if x = nb then [self] else [])\<rparr>"
  by (simp add: register_def add_neighbour_def Let_def)

lemma register_self:
  "self \<noteq> nb \<Longrightarrow> register self nb h self = (h self)\<lparr>neighbours := neighbours (h self) @ [nb]\<rparr>"
  by (simp add: register_def add_neighbour_def Let_def)

lemma fold_register_other:
  "self \<notin> set nbs \<Longrightarrow> self \<noteq> x \<Longrightarrow>
   fold (register self) nbs h x =
     (h x)\<lparr>neighbours := neighbours (h x) @ replicate (count_list nbs x) self\<rparr>"
proof (induction nbs arbitrary: h)
  case Nil
  then show ?case by simp
next
  case (Cons nb nbs)
  then show ?case
    by (simp add: register_other replicate_app_Cons_same)
qed

lemma fold_register_self:
  "self \<notin> set nbs \<Longrightarrow>
   fold (register self) nbs h self = (h self)\<lparr>neighbours := neighbours (h self) @ nbs\<rparr>"
proof (induction nbs arbitrary: h)
  case Nil
  then show ?case by simp
next
  case (Cons nb nbs)
  then show ?case by (simp add: register_self)
qed

lemma fold_register_fields:
  "kind (fold (register self) nbs h x) = kind (h x) \<and>
   num_states (fold (register self) nbs h x) = num_states (h x)"
  by (induction nbs arbitrary: h) (simp_all add: register_def add_neighbour_def Let_def)

lemma Factor_init_loop_fails:
  assumes "j < length nbs" "i + length nbs \<le> length (shape f)"
      and "list_all (\<lambda>nb. kind (h nb) = Variable) nbs"
      and "\<forall>k<j. shape f ! (i + k) = num_states (h (nbs ! k))"
      and "shape f ! (i + j) \<noteq> num_states (h (nbs ! j))"
  shows "Factor_init_loop h self f i nbs = Inl (AssertionError, fold (register self) (take j nbs) h)"
  using assms
proof (induction nbs arbitrary: h i j)
  case Nil
  then show ?case by simp
next
  case (Cons nb nbs)
  show ?case
  proof (cases j)
    case 0
    then show ?thesis using Cons.prems by simp
  next
    case (Suc j')
    let ?h = "register self nb h"
    have f: "\<And>x. kind (?h x) = kind (h x) \<and> num_states (?h x) = num_states (h x)"
      using fold_register_fields[of self "[nb]" h] by simp
    have "Factor_init_loop ?h self f (Suc i) nbs
          = Inl (AssertionError, fold (register self) (take j' nbs) ?h)"
    proof (rule Cons.IH)
      show "j' < length nbs" using Cons.prems(1) Suc by simp
      show "Suc i + length nbs \<le> length (shape f)" using Cons.prems(2) by simp
      show "list_all (\<lambda>nb. kind (?h nb) = Variable) nbs" using Cons.prems(3) by (simp add: f)
      show "\<forall>k<j'. shape f ! (Suc i + k) = num_states (?h (nbs ! k))"
        using Cons.prems(4) Suc by (auto simp: f)
      show "shape f ! (Suc i + j') \<noteq> num_states (?h (nbs ! j'))"
        using Cons.prems(5) Suc by (simp add: f)
    qed
    moreover have "shape f ! i = num_states (h nb)" "i < length (shape f)" "kind (h nb) = Variable"
      using Cons.prems Suc by auto
    then have "Factor_init_loop h self f i (nb # nbs) = Factor_init_loop ?h self f (Suc i) nbs"
      by (simp add: register_def Let_def)
    ultimately show ?thesis
      using Suc by simp
  qed
qed

text \<open>
  C8 as the claim states it fails: a potential of shape \<open>[2, 3]\<close> over two binary
  variables is refused at the second axis, after the first variable has got the
  half-built factor as a neighbour.
\<close>

theorem Factor_init_failure_counterexample:
  "\<exists>h'. Factor_init two_vars 3 ''f'' \<lparr>shape = [2, 3], data = replicate 6 (Fin 1)\<rparr> [1, 2]
           = Inl (AssertionError, h') \<and>
        neighbours (two_vars 1) = [] \<and> neighbours (h' 1) = [3]"
  by (simp add: Factor_init_def two_vars_def Variable_init_def add_neighbour_def Let_def)

text \<open>
  C8, amended. Given neighbours that are Variables (and a new factor object), a
  construction with a defect raises AssertionError and never sets the potential. When
  the number of axes differs from the number of neighbours nothing else has happened.
  When \<open>j\<close> is the first axis whose length differs from its neighbour's number of
  states, the edges to the neighbours at positions before \<open>j\<close> have been registered on
  both sides and stay registered; every other node is unchanged.
\<close>

theorem Factor_init_failure:
  assumes "self \<notin> set nbs" "list_all (\<lambda>nb. kind (h nb) = Variable) nbs"
  shows "(length nbs \<noteq> length (shape f) \<longrightarrow>
            Factor_init h self nm f nbs = Inl (AssertionError, h(self := fresh_factor nm))) \<and>
         (length nbs = length (shape f) \<and> j < length nbs \<and>
          (\<forall>k<j. shape f ! k = num_states (h (nbs ! k))) \<and>
          shape f ! j \<noteq> num_states (h (nbs ! j)) \<longrightarrow>
            (\<exists>h'. Factor_init h self nm f nbs = Inl (AssertionError, h') \<and>
                  h' self = (fresh_factor nm)\<lparr>neighbours := take j nbs\<rparr> \<and>
                  (\<forall>x. x \<noteq> self \<longrightarrow>
                     h' x = (h x)\<lparr>neighbours :=
                                  neighbours (h x) @ replicate (count_list (take j nbs) x) self\<rparr>)))"
proof (intro conjI impI)
  assume "length nbs \<noteq> length (shape f)"
  then show "Factor_init h self nm f nbs = Inl (AssertionError, h(self := fresh_factor nm))"
    by (simp add: Factor_init_def fresh_factor_def)
next
  assume a: "length nbs = length (shape f) \<and> j < length nbs \<and>
          (\<forall>k<j. shape f ! k = num_states (h (nbs ! k))) \<and>
          shape f ! j \<noteq> num_states (h (nbs ! j))"
  let ?h0 = "h(self := fresh_factor nm)"
  let ?h' = "fold (register self) (take j nbs) ?h0"
  have nth: "\<And>k. k < length nbs \<Longrightarrow> nbs ! k \<noteq> self"
    using assms(1) by (metis nth_mem)
  have "Factor_init_loop ?h0 self f 0 nbs = Inl (AssertionError, ?h')"
  proof (rule Factor_init_loop_fails)
    show "j < length nbs" using a by simp
    show "0 + length nbs \<le> length (shape f)" using a by simp
    show "list_all (\<lambda>nb. kind (?h0 nb) = Variable) nbs"
      using assms by (auto simp: list_all_iff)
    show "\<forall>k<j. shape f ! (0 + k) = num_states (?h0 (nbs ! k))"
      using a nth by auto
    show "shape f ! (0 + j) \<noteq> num_states (?h0 (nbs ! j))"
      using a nth by auto
  qed
  then have 1: "Factor_init h self nm f nbs = Inl (AssertionError, ?h')"
    using a by (simp add: Factor_init_def fresh_factor_def)
  have s: "self \<notin> set (take j nbs)"
    using assms(1) by (meson in_set_takeD)
  have 2: "?h' self = (fresh_factor nm)\<lparr>neighbours := take j nbs\<rparr>"
    using fold_register_self[OF s, of ?h0] by (simp add: fresh_factor_def)
  have 3: "\<forall>x. x \<noteq> self \<longrightarrow>
      ?h' x = (h x)\<lparr>neighbours := neighbours (h x) @ replicate (count_list (take j nbs) x) self\<rparr>"
    using fold_register_other[OF s, of _ ?h0] by auto
  show "\<exists>h'. Factor_init h self nm f nbs = Inl (AssertionError, h') \<and>
                  h' self = (fresh_factor nm)\<lparr>neighbours := take j nbs\<rparr> \<and>
                  (\<forall>x. x \<noteq> self \<longrightarrow>
                     h' x = (h x)\<lparr>neighbours :=
                                  neighbours (h x) @ replicate (count_list (take j nbs) x) self\<rparr>)"
    using 1 2 3 by blast
qed

theorem Factor_init_failure_witness:
  "Factor_init two_vars 3 ''f'' (vec [Fin 1, Fin 1]) [1, 2]
     = Inl (AssertionError, two_vars(3 := fresh_factor ''f'')) \<and>
   (\<exists>h'. Factor_init two_vars 3 ''f'' \<lparr>shape = [2, 3], data = replicate 6 (Fin 1)\<rparr> [1, 2]
            = Inl (AssertionError, h') \<and>
          h' 3 = (fresh_factor ''f'')\<lparr>neighbours := [1]\<rparr> \<and>
          h' 1 = (two_vars 1)\<lparr>neighbours := [3]\<rparr> \<and> h' 2 = two_vars 2)"
proof -
  have k: "list_all (\<lambda>nb. kind (two_vars nb) = Variable) [1, 2]"
    by (simp add: two_vars_def Variable_init_def)
  have 1: "Factor_init two_vars 3 ''f'' (vec [Fin 1, Fin 1]) [1, 2]
     = Inl (AssertionError, two_vars(3 := fresh_factor ''f''))"
    using Factor_init_failure[where self = 3 and nbs = "[1, 2]" and h = two_vars
        and f = "vec [Fin 1, Fin 1]" and nm = "''f''", OF _ k]
    by (simp add: vec_def)
  have 2: "\<exists>h'. Factor_init two_vars 3 ''f'' \<lparr>shape = [2, 3], data = replicate 6 (Fin 1)\<rparr> [1, 2]
            = Inl (AssertionError, h') \<and>
          h' 3 = (fresh_factor ''f'')\<lparr>neighbours := [1]\<rparr> \<and>
          h' 1 = (two_vars 1)\<lparr>neighbours := [3]\<rparr> \<and> h' 2 = two_vars 2"
    using Factor_init_failure[where self = 3 and nbs = "[1, 2]" and h = two_vars
        and f = "\<lparr>shape = [2, 3], data = replicate 6 (Fin 1)\<rparr>" and nm = "''f''" and j = 1, OF _ k]
    by (auto simp: two_vars_def Variable_init_def)
  show ?thesis using 1 2 by simp
qed

lemma chain_eq:
  "chain = (\<lambda>i. blank)
   (1 := \<lparr>name = ''X1'', neighbours = [3, 4], in_msgs = [], pending = {}, kind = Variable,
          num_states = 2, latent = True, observed_state = np_ones 2, factor_f = None\<rparr>,
    2 := \<lparr>name = ''X2'', neighbours = [4], in_msgs = [], pending = {}, kind = Variable,
          num_states = 2, latent = True, observed_state = np_ones 2, factor_f = None\<rparr>,
    3 := \<lparr>name = ''f1'', neighbours = [1], in_msgs = [], pending = {}, kind = Factor,
          num_states = 0, latent = False, observed_state = vec [],
          factor_f = Some (vec [Fin 0.5, Fin 0.5])\<rparr>,
    4 := \<lparr>name = ''f12'', neighbours = [1, 2], in_msgs = [], pending = {}, kind = Factor,
          num_states = 0, latent = False, observed_state = vec [],
          factor_f = Some \<lparr>shape = [2, 2], data = [Fin 0.9, Fin 0.1, Fin 0.2, Fin 0.8]\<rparr>\<rparr>)"
  by (rule ext)
     (simp add: chain_def Factor_init_def Variable_init_def heap_of_def add_neighbour_def
        Let_def vec_def)

section \<open>Arrays and indices\<close>

lemma valid_idx_simps [simp]:
  "valid_idx [] idx = (idx = [])"
  "valid_idx (d # ds) idx = (\<exists>i js. idx = i # js \<and> i < d \<and> valid_idx ds js)"
  by (auto simp: valid_idx_def list_all2_Cons2)

lemma valid_idx_length: "valid_idx sh idx \<Longrightarrow> length idx = length sh"
  by (simp add: valid_idx_def list_all2_lengthD)

lemma valid_idx_nth: "valid_idx sh idx \<Longrightarrow> p < length sh \<Longrightarrow> idx ! p < sh ! p"
  by (simp add: valid_idx_def list_all2_nthD2)

lemma valid_idxI: "length idx = length sh \<Longrightarrow> (\<And>p. p < length sh \<Longrightarrow> idx ! p < sh ! p) \<Longrightarrow> valid_idx sh idx"
  by (simp add: valid_idx_def list_all2_conv_all_nth)

lemma set_all_idx: "set (all_idx sh) = {idx. valid_idx sh idx}"
  by (induction sh) auto

lemma length_all_idx: "length (all_idx sh) = prod_list sh"
  by (induction sh) (simp_all add: length_concat comp_def sum_list_triv)

lemma nth_concat_blocks:
  assumes "\<And>i. i < d \<Longrightarrow> length (g i) = P" "i < d" "r < P"
  shows "concat (map g [0..<d]) ! (i * P + r) = g i ! r"
  using assms
proof (induction d)
  case 0
  then show ?case by simp
next
  case (Suc d)
  have "sum_list (map (\<lambda>x. length (g x)) [0..<d]) = sum_list (map (\<lambda>x. P) [0..<d])"
    using Suc.prems(1) by (intro arg_cong[where f = sum_list] map_cong) simp_all
  then have len: "length (concat (map g [0..<d])) = d * P"
    by (simp add: length_concat comp_def sum_list_triv)
  show ?case
  proof (cases "i < d")
    case True
    then have "i * P + r < d * P"
      using Suc.prems(3) by (metis add.commute mult_Suc add_less_mono1 less_le_trans mult_le_mono1 Suc_leI)
    then show ?thesis
      using Suc.IH[OF _ True Suc.prems(3)] Suc.prems(1) len by (simp add: nth_append)
  next
    case False
    then have "i = d" using Suc.prems(2) by simp
    then show ?thesis using len by (simp add: nth_append)
  qed
qed

lemma all_idx_ravel:
  "valid_idx sh idx \<Longrightarrow> ravel sh idx < prod_list sh \<and> all_idx sh ! ravel sh idx = idx"
proof (induction sh arbitrary: idx)
  case Nil
  then show ?case by simp
next
  case (Cons d ds)
  then obtain i js where idx: "idx = i # js" "i < d" "valid_idx ds js" by auto
  let ?P = "prod_list ds"
  have r: "ravel ds js < ?P" "all_idx ds ! ravel ds js = js"
    using Cons.IH[OF idx(3)] by simp_all
  have "i * ?P + ravel ds js < Suc i * ?P" using r(1) by simp
  also have "\<dots> \<le> d * ?P" using idx(2) by (intro mult_le_mono1) simp
  finally have lt: "i * ?P + ravel ds js < d * ?P" .
  have "concat (map (\<lambda>i. map ((#) i) (all_idx ds)) [0..<d]) ! (i * ?P + ravel ds js)
        = map ((#) i) (all_idx ds) ! ravel ds js"
    using idx(2) r(1) by (intro nth_concat_blocks) (simp_all add: length_all_idx)
  then show ?case
    using idx r lt by (simp add: length_all_idx)
qed

lemma item_tabulate: "valid_idx sh idx \<Longrightarrow> item (tabulate sh g) idx = g idx"
  using all_idx_ravel[of sh idx] by (simp add: item_def tabulate_def length_all_idx)

lemma tabulate_cong:
  "(\<And>idx. valid_idx sh idx \<Longrightarrow> g idx = g' idx) \<Longrightarrow> tabulate sh g = tabulate sh g'"
  by (simp add: tabulate_def set_all_idx)

lemma bc_dims_same_length:
  "length xs = length ys \<Longrightarrow> list_all2 compat xs ys \<Longrightarrow> bc_dims xs ys = Some (map2 bmax xs ys)"
proof (induction xs ys rule: list_induct2)
  case Nil
  then show ?case by simp
next
  case (Cons x xs y ys)
  then show ?case by (auto simp: compat_def bmax_def)
qed

lemma broadcast_shapes_same_length:
  assumes "length s1 = length s2" "list_all2 compat s1 s2"
  shows "broadcast_shapes s1 s2 = Some (map2 bmax s1 s2)"
proof -
  have "bc_dims (rev s1) (rev s2) = Some (map2 bmax (rev s1) (rev s2))"
    using assms by (intro bc_dims_same_length) simp_all
  then show ?thesis
    using assms(1) by (simp add: broadcast_shapes_def zip_rev rev_map)
qed

lemma bc_index_same_length:
  "length idx = length s \<Longrightarrow> bc_index s idx = map2 (\<lambda>d i. if d = 1 then 0 else i) s idx"
  by (simp add: bc_index_def)

text \<open>Reading an index that is zero outside position m.\<close>

lemma ravel_unit_axes:
  "ravel (replicate m 1 @ d # replicate r 1) (replicate m 0 @ i # replicate r 0) = i"
proof (induction m)
  case 0
  have "ravel (replicate r 1) (replicate r 0) = 0" for r
    by (induction r) simp_all
  then show ?case by simp
next
  case (Suc m)
  then show ?case by simp
qed

lemma np_ix_grids:
  assumes "list_all (\<lambda>v. length (shape v) = 1) vs"
  shows "np_ix vs = Inr (map (ix_grid vs) [0..<length vs])"
proof -
  have "map (\<lambda>(j, v). \<lparr>shape = replicate j 1 @ shape v @ replicate (length vs - j - 1) 1, data = data v\<rparr>)
          (enumerate 0 vs) = map (ix_grid vs) [0..<length vs]"
    by (intro nth_equalityI) (simp_all add: ix_grid_def nth_enumerate_eq)
  then show ?thesis using assms by (simp add: np_ix_def)
qed

lemma all_idx_unit_tail: "all_idx (d # replicate r 1) = map (\<lambda>i. i # replicate r 0) [0..<d]"
proof -
  have "all_idx (replicate r 1) = [replicate r 0]" for r
    by (induction r) simp_all
  then show ?thesis by (simp add: map_concat comp_def concat_map_singleton)
qed

lemma partial_outer_one:
  assumes "vs \<noteq> []" "is_vector d (vs ! 0)"
  shows "ix_grid vs 0 = partial_outer vs 1"
proof -
  have d: "length (data (vs ! 0)) = d" "shape (vs ! 0) = [d]"
    using assms(2) by (simp_all add: is_vector_def)
  have t: "take (Suc 0) (map (\<lambda>v. length (data v)) vs) = [d]"
    using assms(1) d by (cases vs) simp_all
  have "map (\<lambda>c. data (vs ! 0) ! (c ! 0)) (map (\<lambda>i. i # replicate (length vs - 1) 0) [0..<d])
        = data (vs ! 0)"
    using d by (intro nth_equalityI) simp_all
  then have "map (\<lambda>c. data (vs ! 0) ! (c ! 0)) (all_idx (d # replicate (length vs - 1) 1))
        = data (vs ! 0)"
    by (simp only: all_idx_unit_tail)
  then show ?thesis
    by (simp add: ix_grid_def partial_outer_def tabulate_def t d del: all_idx.simps)
qed

lemma vectors_nth: "vectors vs \<Longrightarrow> j < length vs \<Longrightarrow> shape (vs ! j) = [length (data (vs ! j))]"
  by (simp add: vectors_def list_all_length)

lemma map2_unit_axes:
  assumes "length idx = m + Suc r"
  shows "map2 (\<lambda>d i. if d = 1 then 0 else i) (replicate m 1 @ d # replicate r 1) idx
         = replicate m 0 @ (if d = 1 then 0 else idx ! m) # replicate r 0"
  using assms
  by (intro nth_equalityI) (auto simp: nth_append nth_Cons')

lemma partial_outer_step:
  assumes vs: "vectors vs" and m: "0 < m" "m < length vs"
  shows "np_binop nf_mul (partial_outer vs m) (ix_grid vs m) = Inr (partial_outer vs (Suc m))"
proof -
  define k where "k = length vs"
  define D where "D = map (\<lambda>v. length (data v)) vs"
  define sA where "sA = take m D @ replicate (k - m) 1"
  define sg where "sg = replicate m 1 @ (D ! m) # replicate (k - m - 1) 1"
  define sR where "sR = take (Suc m) D @ replicate (k - Suc m) 1"
  have lenD: "length D = k" by (simp add: D_def k_def)
  have mk: "m < k" using m by (simp add: k_def)
  have shA: "shape (partial_outer vs m) = sA"
    by (simp add: partial_outer_def tabulate_def sA_def D_def k_def)
  have shg: "shape (ix_grid vs m) = sg"
    using vectors_nth[OF vs m(2)] m(2) by (simp add: ix_grid_def sg_def D_def k_def)
  have len: "length sA = k" "length sg = k" "length sR = k"
    using mk lenD by (simp_all add: sA_def sg_def sR_def)
  have nA: "\<And>p. p < k \<Longrightarrow> sA ! p = (if p < m then D ! p else 1)"
    using mk lenD by (auto simp: sA_def nth_append)
  have ng: "\<And>p. p < k \<Longrightarrow> sg ! p = (if p = m then D ! m else 1)"
    using mk by (auto simp: sg_def nth_append nth_Cons')
  have nR: "\<And>p. p < k \<Longrightarrow> sR ! p = (if p \<le> m then D ! p else 1)"
    using mk lenD by (auto simp: sR_def nth_append)
  have c: "list_all2 compat sA sg"
    using len by (simp add: list_all2_conv_all_nth nA ng compat_def)
  have b: "map2 bmax sA sg = sR"
    using len by (intro nth_equalityI) (auto simp: nA ng nR bmax_def)
  have bs: "broadcast_shapes sA sg = Some sR"
    using broadcast_shapes_same_length[OF _ c] len b by simp
  have cell: "nf_mul (item (partial_outer vs m) (bc_index sA idx)) (item (ix_grid vs m) (bc_index sg idx))
        = foldl nf_mul (data (vs ! 0) ! (idx ! 0)) (map (\<lambda>j. data (vs ! j) ! (idx ! j)) [1..<Suc m])"
    if v: "valid_idx sR idx" for idx
  proof -
    have li: "length idx = k" using valid_idx_length[OF v] len by simp
    have lt: "\<And>p. p < k \<Longrightarrow> idx ! p < sR ! p" using valid_idx_nth[OF v] len by simp
    let ?ia = "bc_index sA idx"
    have ia: "?ia = map2 (\<lambda>d i. if d = 1 then 0 else i) sA idx"
      using li len by (simp add: bc_index_same_length)
    have ian: "\<And>p. p < m \<Longrightarrow> ?ia ! p = idx ! p"
    proof -
      fix p assume p: "p < m"
      then have "p < k" using mk by simp
      then show "?ia ! p = idx ! p"
        using lt[of p] p li len by (auto simp: ia nA nR)
    qed
    have va: "valid_idx sA ?ia"
    proof (rule valid_idxI)
      show "length ?ia = length sA" using li len by (simp add: ia)
      fix p assume "p < length sA"
      then have p: "p < k" using len by simp
      then show "?ia ! p < sA ! p"
        using lt[of p] li len by (auto simp: ia nA nR)
    qed
    have 1: "item (partial_outer vs m) ?ia
          = foldl nf_mul (data (vs ! 0) ! (idx ! 0)) (map (\<lambda>j. data (vs ! j) ! (idx ! j)) [1..<m])"
    proof -
      have "item (partial_outer vs m) ?ia
          = foldl nf_mul (data (vs ! 0) ! (?ia ! 0)) (map (\<lambda>j. data (vs ! j) ! (?ia ! j)) [1..<m])"
        using va item_tabulate[of sA ?ia]
        by (simp add: partial_outer_def sA_def D_def k_def)
      also have "map (\<lambda>j. data (vs ! j) ! (?ia ! j)) [1..<m] = map (\<lambda>j. data (vs ! j) ! (idx ! j)) [1..<m]"
        by (intro map_cong) (simp_all add: ian)
      finally show ?thesis using ian[OF m(1)] by simp
    qed
    have ig: "bc_index sg idx = replicate m 0 @ (idx ! m) # replicate (k - m - 1) 0"
    proof -
      have "length idx = m + Suc (k - m - 1)" using li mk by simp
      then have "bc_index sg idx = replicate m 0 @ (if D ! m = 1 then 0 else idx ! m) # replicate (k - m - 1) 0"
        using li len map2_unit_axes[of idx m "k - m - 1" "D ! m"]
        by (simp add: bc_index_same_length sg_def)
      moreover have "(if D ! m = 1 then 0 else idx ! m) = idx ! m"
        using lt[OF mk] mk by (simp add: nR)
      ultimately show ?thesis by simp
    qed
    have "ravel sg (bc_index sg idx) = idx ! m"
      unfolding ig unfolding sg_def by (rule ravel_unit_axes)
    then have 2: "item (ix_grid vs m) (bc_index sg idx) = data (vs ! m) ! (idx ! m)"
      by (simp add: item_def shg) (simp add: ix_grid_def)
    show ?thesis using m(1) by (simp add: 1 2)
  qed
  have "np_binop nf_mul (partial_outer vs m) (ix_grid vs m)
      = Inr (tabulate sR (\<lambda>idx. nf_mul (item (partial_outer vs m) (bc_index sA idx))
                                       (item (ix_grid vs m) (bc_index sg idx))))"
    by (simp add: np_binop_def shA shg bs)
  also have "tabulate sR (\<lambda>idx. nf_mul (item (partial_outer vs m) (bc_index sA idx))
                                       (item (ix_grid vs m) (bc_index sg idx)))
      = tabulate sR (\<lambda>idx. foldl nf_mul (data (vs ! 0) ! (idx ! 0))
                             (map (\<lambda>j. data (vs ! j) ! (idx ! j)) [1..<Suc m]))"
    by (rule tabulate_cong) (rule cell)
  also have "\<dots> = partial_outer vs (Suc m)"
    by (simp add: partial_outer_def sR_def D_def k_def)
  finally show ?thesis .
qed

lemma reduce_from_snoc:
  "reduce_from acc (xs @ [x]) =
     (case reduce_from acc xs of Inl e \<Rightarrow> Inl e | Inr y \<Rightarrow> np_binop nf_mul y x)"
  by (induction xs arbitrary: acc) (auto split: sum.splits)

lemma reduce_grids:
  assumes "vectors vs"
  shows "m < length vs \<Longrightarrow>
         reduce_from (partial_outer vs 1) (map (ix_grid vs) [1..<Suc m]) = Inr (partial_outer vs (Suc m))"
proof (induction m)
  case 0
  then show ?case by simp
next
  case (Suc m)
  then have "reduce_from (partial_outer vs 1) (map (ix_grid vs) [1..<Suc m]) = Inr (partial_outer vs (Suc m))"
    by simp
  moreover have "np_binop nf_mul (partial_outer vs (Suc m)) (ix_grid vs (Suc m))
                 = Inr (partial_outer vs (Suc (Suc m)))"
    using partial_outer_step[OF assms, of "Suc m"] Suc.prems by simp
  moreover have "[1..<Suc (Suc m)] = [1..<Suc m] @ [Suc m]" by simp
  ultimately show ?case
    by (simp only: map_append reduce_from_snoc list.map) simp
qed

lemma vectors_is_vector: "vectors vs \<Longrightarrow> j < length vs \<Longrightarrow> is_vector (length (data (vs ! j))) (vs ! j)"
  by (simp add: is_vector_def vectors_nth)

lemma py_reduce_multiply_grids:
  assumes "vectors vs" "vs \<noteq> []"
  shows "py_reduce_multiply (map (ix_grid vs) [0..<length vs]) = Inr (partial_outer vs (length vs))"
proof -
  obtain m where m: "length vs = Suc m" using assms(2) by (cases vs) auto
  have u: "[0..<Suc m] = 0 # [Suc 0..<Suc m]" by (simp add: upt_rec)
  have v0: "is_vector (length (data (vs ! 0))) (vs ! 0)"
    using vectors_is_vector[OF assms(1), of 0] m by simp
  have "ix_grid vs 0 = partial_outer vs 1"
    using partial_outer_one[OF assms(2) v0] by simp
  then show ?thesis
    using reduce_grids[OF assms(1), of m] m
    by (simp add: py_reduce_multiply_def u del: upt_Suc)
qed

lemma outer_product_nth:
  assumes "length c = length vs" "vs \<noteq> []"
  shows "outer_product vs c
         = foldl nf_mul (data (vs ! 0) ! (c ! 0)) (map (\<lambda>j. data (vs ! j) ! (c ! j)) [1..<length vs])"
proof -
  have "map2 (\<lambda>m i. data m ! i) vs c = map (\<lambda>j. data (vs ! j) ! (c ! j)) [0..<length vs]"
    using assms(1) by (intro nth_equalityI) simp_all
  moreover have "[0..<length vs] = 0 # [1..<length vs]"
    using assms(2) by (simp add: upt_rec)
  ultimately show ?thesis by (simp add: outer_product_def)
qed

lemma partial_outer_full:
  assumes "vs \<noteq> []"
  shows "shape (partial_outer vs (length vs)) = map (\<lambda>v. length (data v)) vs"
    and "valid_idx (map (\<lambda>v. length (data v)) vs) c \<Longrightarrow>
         item (partial_outer vs (length vs)) c = outer_product vs c"
proof -
  show "shape (partial_outer vs (length vs)) = map (\<lambda>v. length (data v)) vs"
    by (simp add: partial_outer_def tabulate_def)
  assume v: "valid_idx (map (\<lambda>v. length (data v)) vs) c"
  then have "length c = length vs" using valid_idx_length by fastforce
  then show "item (partial_outer vs (length vs)) c = outer_product vs c"
    using v assms by (simp add: partial_outer_def item_tabulate outer_product_nth)
qed

text \<open>Positions in a list without repetitions.\<close>

lemma first_index_nth: "distinct xs \<Longrightarrow> i < length xs \<Longrightarrow> first_index xs (xs ! i) = i"
proof (induction xs arbitrary: i)
  case Nil
  then show ?case by simp
next
  case (Cons x xs)
  then show ?case by (cases i) (auto simp: first_index_def)
qed

lemma first_index_less: "x \<in> set xs \<Longrightarrow> first_index xs x < length xs"
  by (induction xs) (auto simp: first_index_def)

lemma nth_first_index: "x \<in> set xs \<Longrightarrow> xs ! first_index xs x = x"
  by (induction xs) (auto simp: first_index_def)

lemma filter_nth_conv:
  "filter P xs = map ((!) xs) (filter (\<lambda>i. P (xs ! i)) [0..<length xs])"
proof -
  have "filter P (map ((!) xs) [0..<length xs]) = map ((!) xs) (filter (\<lambda>i. P (xs ! i)) [0..<length xs])"
    by (simp add: filter_map comp_def)
  then show ?thesis by (simp add: map_nth)
qed

lemma others_axes:
  assumes "distinct xs" "x \<in> set xs"
  shows "filter (\<lambda>y. \<not> y = x) xs
         = map ((!) xs) (filter (\<lambda>i. \<not> i = first_index xs x) [0..<length xs])"
proof -
  have "filter (\<lambda>i. \<not> xs ! i = x) [0..<length xs] = filter (\<lambda>i. \<not> i = first_index xs x) [0..<length xs]"
    using assms first_index_nth[OF assms(1)] nth_first_index[OF assms(2)]
    by (intro filter_cong) auto
  then show ?thesis using filter_nth_conv[of "\<lambda>y. \<not> y = x" xs] by simp
qed

lemma filter_neq_upt:
  "a < n \<Longrightarrow> filter (\<lambda>i. \<not> i = a) [0..<n] = [0..<a] @ [Suc a..<n]"
proof -
  assume a: "a < n"
  then have "[0..<n] = [0..<a] @ a # [Suc a..<n]"
    by (metis less_imp_le_nat upt_add_eq_append upt_conv_Cons le0 le_add_diff_inverse plus_nat.add_0)
  then show ?thesis by (simp add: filter_id_conv filter_empty_conv) 
qed

lemma first_index_append:
  "first_index (xs @ ys) p = (if p \<in> set xs then first_index xs p else length xs + first_index ys p)"
  by (induction xs) (auto simp: first_index_def)

lemma first_index_upt: "m \<le> p \<Longrightarrow> p < n \<Longrightarrow> first_index [m..<n] p = p - m"
proof (induction "n - m" arbitrary: m)
  case 0
  then show ?case by simp
next
  case (Suc d)
  then have "[m..<n] = m # [Suc m..<n]" by (simp add: upt_rec)
  then show ?case
    using Suc.hyps(1)[of "Suc m"] Suc.hyps(2) Suc.prems
    by (cases "p = m") (auto simp: first_index_def)
qed

lemma first_index_skip:
  assumes "a < n" "p < n" "p \<noteq> a"
  shows "first_index (filter (\<lambda>i. \<not> i = a) [0..<n]) p = (if p < a then p else p - 1)"
  using assms
  by (auto simp: filter_neq_upt first_index_append first_index_upt)

lemma py_del_conv:
  assumes "a < length xs"
  shows "map ((!) xs) (filter (\<lambda>i. \<not> i = a) [0..<length xs]) = py_del xs a"
  using assms
  by (intro nth_equalityI) (auto simp: filter_neq_upt py_del_def nth_append)

lemma merge_idx_insert:
  assumes "a < n" "Suc (length c) = n"
  shows "merge_idx n (filter (\<lambda>i. \<not> i = a) [0..<n]) [s] c = py_insert c a s"
proof (intro nth_equalityI)
  show "length (merge_idx n (filter (\<lambda>i. \<not> i = a) [0..<n]) [s] c) = length (py_insert c a s)"
    using assms by (simp add: merge_idx_def py_insert_def)
  fix p assume "p < length (merge_idx n (filter (\<lambda>i. \<not> i = a) [0..<n]) [s] c)"
  then have p: "p < n" by (simp add: merge_idx_def)
  show "merge_idx n (filter (\<lambda>i. \<not> i = a) [0..<n]) [s] c ! p = py_insert c a s ! p"
  proof (cases "p = a")
    case True
    have "filter (\<lambda>q. q \<notin> set (filter (\<lambda>i. \<not> i = a) [0..<n])) [0..<a] = []"
      using assms(1) by (auto simp: filter_empty_conv)
    then show ?thesis
      using True p assms by (simp add: merge_idx_def py_insert_def nth_append)
  next
    case False
    then show ?thesis
      using p assms first_index_skip[OF assms(1) p False]
      by (auto simp: merge_idx_def py_insert_def nth_append nth_Cons')
  qed
qed

lemma merge_idx_all: "length c = k \<Longrightarrow> merge_idx k [0..<k] free c = c"
  by (intro nth_equalityI) (simp_all add: merge_idx_def first_index_upt)

lemma tabulate_one: "tabulate [n] g = vec (map (\<lambda>s. g [s]) [0..<n])"
  by (simp add: tabulate_def vec_def all_idx_one comp_def)

lemma getitems_Some:
  "list_all (\<lambda>nb. map_of d nb \<noteq> None) nbs \<Longrightarrow> getitems d nbs = Inr (map (\<lambda>nb. the (map_of d nb)) nbs)"
  by (induction nbs) auto

lemma np_tensordot_vector:
  assumes a: "a < length (shape f)"
      and sh: "shape mm = py_del (shape f) a"
  shows "np_tensordot f mm (filter (\<lambda>i. \<not> i = a) [0..<length (shape f)]) [0..<length (shape mm)]
         = Inr (vec (map (\<lambda>s. nf_sum (map (\<lambda>c. nf_mul (item f (py_insert c a s)) (item mm c))
                                         (all_idx (py_del (shape f) a))))
                         [0..<shape f ! a]))"
proof -
  let ?R = "length (shape f)"
  let ?k = "length (shape mm)"
  let ?fax = "filter (\<lambda>i. \<not> i = a) [0..<?R]"
  have fax: "?fax = [0..<a] @ [Suc a..<?R]" using a by (simp add: filter_neq_upt)
  have dims: "map ((!) (shape f)) ?fax = py_del (shape f) a"
    using py_del_conv[OF a] by simp
  have kR: "Suc ?k = ?R" using a sh by (simp add: py_del_def)
  have c1: "length ?fax = length [0..<?k]" using kR a by (simp add: fax)
  have c2: "list_all (\<lambda>ax. ax < ?R) ?fax" "list_all (\<lambda>ax. ax < ?k) [0..<?k]"
    by (simp_all add: list_all_iff)
  have c3: "map ((!) (shape f)) ?fax = map ((!) (shape mm)) [0..<?k]"
    using dims sh by (simp add: map_nth)
  have c4: "distinct ?fax" "distinct [0..<?k]" by simp_all
  have keep_a: "filter (\<lambda>p. p \<notin> set ?fax) [0..<?R] = [a]"
  proof -
    have split: "[0..<?R] = [0..<a] @ a # [Suc a..<?R]"
      using a by (metis less_imp_le_nat upt_add_eq_append upt_conv_Cons le0 le_add_diff_inverse plus_nat.add_0)
    have "filter (\<lambda>p. p \<notin> set ([0..<a] @ [Suc a..<?R])) ([0..<a] @ a # [Suc a..<?R]) = [a]"
      by (auto simp: filter_empty_conv)
    then show ?thesis using split fax by simp
  qed
  have keep_b: "filter (\<lambda>p. p \<notin> set [0..<?k]) [0..<?k] = []"
    by (simp add: filter_empty_conv)
  have cell: "nf_mul (item f (merge_idx ?R ?fax [s] c)) (item mm (merge_idx ?k [0..<?k] [] c))
              = nf_mul (item f (py_insert c a s)) (item mm c)"
    if "c \<in> set (all_idx (py_del (shape f) a))" for c s
  proof -
    have "valid_idx (shape mm) c" using that sh by (simp add: set_all_idx)
    then have lc: "length c = ?k" using valid_idx_length by simp
    then show ?thesis
      using merge_idx_insert[OF a, of c s] kR by (simp add: merge_idx_all)
  qed
  have "np_tensordot f mm ?fax [0..<?k]
        = Inr (tabulate [shape f ! a]
             (\<lambda>idx. nf_sum (map
                (\<lambda>c. nf_mul (item f (merge_idx ?R ?fax (take 1 idx) c))
                             (item mm (merge_idx ?k [0..<?k] (drop 1 idx) c)))
                (all_idx (py_del (shape f) a)))))"
    unfolding np_tensordot_def Let_def
    by (simp only: c1 c2 c3[symmetric] c4 keep_a keep_b dims simp_thms if_False if_True list.map
        append_Nil2 list.size One_nat_def add_0)
  also have "\<dots> = Inr (vec (map (\<lambda>s. nf_sum (map (\<lambda>c. nf_mul (item f (py_insert c a s)) (item mm c))
                                         (all_idx (py_del (shape f) a))))
                         [0..<shape f ! a]))"
    using cell by (simp add: tabulate_one vec_def cong: map_cong del: all_idx.simps)
  finally show ?thesis .
qed

section \<open>The sum-product message of a factor\<close>

lemma Factor_send_sp_msg_value:
  assumes r: "factor_ready h self other" and ne: "others h self other \<noteq> []"
  shows "Factor_send_sp_msg h self other
         = Inr (deliver h self other (sum_product_message h self other))"
proof -
  let ?nbrs = "neighbours (h self)"
  let ?N = "others h self other"
  define vs where "vs = map (inbox h self) ?N"
  let ?a = "axis_of h self other"
  obtain f where f: "factor_f (h self) = Some f"
    using r by (auto simp: factor_ready_def split: option.splits)
  have rank: "length (shape f) = length ?nbrs" and dist: "distinct ?nbrs"
    and mem: "other \<in> set ?nbrs"
    and msgs: "list_all (\<lambda>nb. case map_of (in_msgs (h self)) nb of
                           None \<Rightarrow> False
                         | Some m \<Rightarrow> is_vector (shape f ! axis_of h self nb) m) ?N"
    using r f by (simp_all add: factor_ready_def)
  have a: "?a < length (shape f)"
    using first_index_less[OF mem] rank by (simp add: axis_of_def)
  let ?fax = "filter (\<lambda>i. \<not> i = ?a) [0..<length ?nbrs]"
  have N: "?N = map ((!) ?nbrs) ?fax"
    using others_axes[OF dist mem] by (simp add: others_def axis_of_def)
  have m: "\<And>nb. nb \<in> set ?N \<Longrightarrow> map_of (in_msgs (h self)) nb = Some (inbox h self nb) \<and>
                    is_vector (shape f ! axis_of h self nb) (inbox h self nb)"
    using msgs by (auto simp: list_all_iff inbox_def split: option.splits)
  have "list_all (\<lambda>nb. map_of (in_msgs (h self)) nb \<noteq> None) ?N"
    using m by (auto simp: list_all_iff)
  then have "getitems (in_msgs (h self)) ?N = Inr (map (\<lambda>nb. the (map_of (in_msgs (h self)) nb)) ?N)"
    by (rule getitems_Some)
  then have gi: "getitems (in_msgs (h self)) ?N = Inr vs"
    by (simp add: inbox_def[abs_def] vs_def)
  have vv: "vectors vs"
    using m by (auto simp: vectors_def list_all_iff is_vector_def vs_def)
  have one: "list_all (\<lambda>v. length (shape v) = 1) vs"
    using m by (auto simp: list_all_iff is_vector_def vs_def)
  have "map (\<lambda>v. length (data v)) vs = map (\<lambda>nb. shape f ! axis_of h self nb) ?N"
    using m by (auto simp: is_vector_def vs_def)
  also have "\<dots> = map (\<lambda>i. shape f ! axis_of h self (?nbrs ! i)) ?fax"
    by (subst N) (simp add: comp_def)
  also have "\<dots> = map ((!) (shape f)) ?fax"
    using first_index_nth[OF dist] by (intro map_cong) (simp_all add: axis_of_def)
  also have "\<dots> = py_del (shape f) ?a"
    using py_del_conv[OF a] rank by simp
  finally have D: "map (\<lambda>v. length (data v)) vs = py_del (shape f) ?a" .
  define mm where "mm = partial_outer vs (length vs)"
  have vne: "vs \<noteq> []" using ne by (simp add: vs_def)
  have shmm: "shape mm = py_del (shape f) ?a"
    using partial_outer_full(1)[OF vne] D by (simp add: mm_def)
  have red: "py_reduce_multiply (map (ix_grid vs) [0..<length vs]) = Inr mm"
    unfolding mm_def by (rule py_reduce_multiply_grids[OF vv vne])
  have itm: "\<And>c. c \<in> set (all_idx (py_del (shape f) ?a)) \<Longrightarrow> item mm c = outer_product vs c"
    using partial_outer_full(2)[OF vne] D by (simp add: set_all_idx mm_def)
  have td: "np_tensordot f mm ?fax [0..<length (shape mm)]
        = Inr (vec (map (\<lambda>s. nf_sum (map (\<lambda>c. nf_mul (item f (py_insert c ?a s)) (outer_product vs c))
                                         (all_idx (py_del (shape f) ?a))))
                         [0..<shape f ! ?a]))"
    using np_tensordot_vector[OF a shmm] itm rank by (simp cong: map_cong del: all_idx.simps)
  have spec: "sum_product_message h self other
        = vec (map (\<lambda>s. nf_sum (map (\<lambda>c. nf_mul (item f (py_insert c ?a s)) (outer_product vs c))
                                         (all_idx (py_del (shape f) ?a))))
                         [0..<shape f ! ?a])"
    by (simp add: sum_product_message_def potential_def f Let_def vs_def)
  have pi: "py_index ?nbrs other = Inr ?a"
    using mem by (simp add: py_index_def axis_of_def)
  show ?thesis
    using ne
    by (simp add: Factor_send_sp_msg_def others_def[symmetric] gi np_ix_grids[OF one] red pi
        get_f_def f td spec Let_def del: all_idx.simps)
qed

text \<open>
  C2. \<^verbatim>\<open>Factor.send_sp_msg\<close>: a factor whose only neighbour is the receiver delivers
  the potential itself. Otherwise, for a factor whose potential has one axis per
  neighbour, with no neighbour listed twice and a vector of the right length in the
  inbox for every other neighbour, it delivers the contraction of the potential with
  the outer product of those messages over all axes but the receiver's
  (\<open>sum_product_message\<close>). In both cases the call returns, and in the heap it leaves
  the receiver's inbox maps the factor to that message.
\<close>

theorem Factor_send_sp_msg_contraction:
  assumes "kind (h self) = Factor"
  shows "(factor_f (h self) = Some f \<and> set (neighbours (h self)) = {other} \<longrightarrow>
            (\<exists>h'. send_sp_msg h self other = Inr h' \<and>
                  h' = deliver h self other f \<and>
                  map_of (in_msgs (h' other)) self = Some f)) \<and>
         (others h self other \<noteq> [] \<and> factor_ready h self other \<longrightarrow>
            (\<exists>h'. send_sp_msg h self other = Inr h' \<and>
                  h' = deliver h self other (sum_product_message h self other) \<and>
                  map_of (in_msgs (h' other)) self = Some (sum_product_message h self other)))"
proof (intro conjI impI)
  assume "factor_f (h self) = Some f \<and> set (neighbours (h self)) = {other}"
  then show "\<exists>h'. send_sp_msg h self other = Inr h' \<and>
                h' = deliver h self other f \<and>
                map_of (in_msgs (h' other)) self = Some f"
    using assms others_empty[of h self other]
    by (simp add: send_sp_msg_def Factor_send_sp_msg_def others_def get_f_def
        deliver_def receive_msg_def update_conv' Let_def)
next
  assume "others h self other \<noteq> [] \<and> factor_ready h self other"
  then have "send_sp_msg h self other = Inr (deliver h self other (sum_product_message h self other))"
    using assms Factor_send_sp_msg_value by (simp add: send_sp_msg_def)
  then show "\<exists>h'. send_sp_msg h self other = Inr h' \<and>
                h' = deliver h self other (sum_product_message h self other) \<and>
                map_of (in_msgs (h' other)) self = Some (sum_product_message h self other)"
    by (simp add: deliver_def receive_msg_def update_conv' Let_def)
qed

theorem Factor_send_sp_msg_contraction_witness:
  "(\<exists>h'. send_sp_msg chain 3 1 = Inr h' \<and>
         h' = deliver chain 3 1 (vec [Fin (1/2), Fin (1/2)]) \<and>
         map_of (in_msgs (h' 1)) 3 = Some (vec [Fin (1/2), Fin (1/2)])) \<and>
   (\<exists>h'. send_sp_msg triple_graph 4 2 = Inr h' \<and>
         h' = deliver triple_graph 4 2 \<lparr>shape = [3], data = [Fin 195, Fin 261, Fin 327]\<rparr> \<and>
         map_of (in_msgs (h' 2)) 4 = Some \<lparr>shape = [3], data = [Fin 195, Fin 261, Fin 327]\<rparr>)"
proof -
  have 1: "\<exists>h'. send_sp_msg chain 3 1 = Inr h' \<and>
         h' = deliver chain 3 1 (vec [Fin (1/2), Fin (1/2)]) \<and>
         map_of (in_msgs (h' 1)) 3 = Some (vec [Fin (1/2), Fin (1/2)])"
    using Factor_send_sp_msg_contraction[of chain 3 "vec [Fin (1/2), Fin (1/2)]" 1]
    by (simp add: chain_eq)
  have 2: "\<exists>h'. send_sp_msg triple_graph 4 2 = Inr h' \<and>
         h' = deliver triple_graph 4 2 \<lparr>shape = [3], data = [Fin 195, Fin 261, Fin 327]\<rparr> \<and>
         map_of (in_msgs (h' 2)) 4 = Some \<lparr>shape = [3], data = [Fin 195, Fin 261, Fin 327]\<rparr>"
    using Factor_send_sp_msg_contraction[of triple_graph 4 _ 2]
    by (simp add: triple_graph_def factor_ready_def others_def axis_of_def first_index_def
        is_vector_def vec_def sum_product_message_def potential_def inbox_def py_insert_def
        py_del_def item_def outer_product_def nf_sum_def upt_eval Let_def)
  show ?thesis using 1 2 by simp
qed

section \<open>The concrete scenario\<close>

lemma chain_sum_product:
  "\<exists>h l. sum_product chain [3, 1, 4, 2] False = Inr (h, l) \<and>
     marginal h 2 None = Inr (vec [Fin (55/100), Fin (45/100)], scalar (Fin 1))"
  by (simp add: chain_eq np_defs node_defs upt_eval Let_def)

lemma chain_max_sum:
  "\<exists>h l. sum_product chain [3, 1, 4, 2] True = Inr (h, l) \<and> best_value h 2 = Inr 0"
  by (simp add: chain_eq np_defs node_defs upt_eval Let_def)

text \<open>
  C9. On the chain \<open>X1 \<midarrow> f12 \<midarrow> X2\<close> with the prior \<open>f1 = [0.5, 0.5]\<close> on \<open>X1\<close> and
  \<open>f12 = [[0.9, 0.1], [0.2, 0.8]]\<close>, the scheduler run over the sequence
  \<open>f1, X1, f12, X2\<close> returns in both modes; after the sum-product run
  \<^verbatim>\<open>marginal(X2)\<close> is \<open>[0.55, 0.45]\<close> (exactly, over the reals) with constant 1, and
  after the max-sum run \<^verbatim>\<open>best_value(X2)\<close> is 0.
\<close>

theorem chain_scenario:
  "(\<exists>h l. sum_product chain [3, 1, 4, 2] False = Inr (h, l) \<and>
      marginal h 2 None = Inr (vec [Fin (55/100), Fin (45/100)], scalar (Fin 1))) \<and>
   (\<exists>h l. sum_product chain [3, 1, 4, 2] True = Inr (h, l) \<and> best_value h 2 = Inr 0)"
  using chain_sum_product chain_max_sum by simp

section \<open>Factor messages\<close>

lemma pair_graph_eq:
  "pair_graph = (\<lambda>i. blank)
   (1 := \<lparr>name = ''X0'', neighbours = [3], in_msgs = [], pending = {}, kind = Variable,
          num_states = 2, latent = True, observed_state = np_ones 2, factor_f = None\<rparr>,
    2 := \<lparr>name = ''X1'', neighbours = [3], in_msgs = [], pending = {}, kind = Variable,
          num_states = 2, latent = True, observed_state = np_ones 2, factor_f = None\<rparr>,
    3 := \<lparr>name = ''f'', neighbours = [1, 2], in_msgs = [(1, vec [Fin 0, Fin 5])],
          pending = {}, kind = Factor, num_states = 0, latent = False,
          observed_state = vec [],
          factor_f = Some \<lparr>shape = [2, 2], data = [Fin 1, Fin 1, Fin 1, Fin 1]\<rparr>\<rparr>)"
  by (rule ext)
     (simp add: pair_graph_def Factor_init_def Variable_init_def heap_of_def add_neighbour_def
        Let_def vec_def)

lemma uneven_graph_eq:
  "uneven_graph = (\<lambda>i. blank)
   (1 := \<lparr>name = ''X0'', neighbours = [3], in_msgs = [], pending = {}, kind = Variable,
          num_states = 2, latent = True, observed_state = np_ones 2, factor_f = None\<rparr>,
    2 := \<lparr>name = ''X1'', neighbours = [3], in_msgs = [], pending = {}, kind = Variable,
          num_states = 3, latent = True, observed_state = np_ones 3, factor_f = None\<rparr>,
    3 := \<lparr>name = ''f'', neighbours = [1, 2], in_msgs = [(1, vec [Fin 0, Fin 0])],
          pending = {}, kind = Factor, num_states = 0, latent = False,
          observed_state = vec [],
          factor_f = Some \<lparr>shape = [2, 3], data = replicate 6 (Fin 1)\<rparr>\<rparr>)"
  by (rule ext)
     (simp add: uneven_graph_def Factor_init_def Variable_init_def heap_of_def add_neighbour_def
        Let_def vec_def)

text \<open>
  C1. The claim describes the max-sum message of a factor (\<open>max_sum_message\<close>); the
  program computes something else. \<^verbatim>\<open>np.tile\<close> puts every message along the last
  axis and \<^verbatim>\<open>np.rollaxis(t, 0, i)\<close> moves the first axis, not the last, so \<^verbatim>\<open>mm\<close>
  has one axis less than the potential and is aligned with its trailing axes. On the
  all-ones potential over two binary variables, with the message \<open>[0, 5]\<close> from the
  first one, the message delivered to the second is \<open>[0, 5]\<close> where the claim has
  \<open>[5, 5]\<close>; when the variables have 2 and 3 states the call raises ValueError.
\<close>

theorem Factor_send_ms_msg_misaligned:
  "(\<exists>h'. send_ms_msg pair_graph 3 2 = Inr h' \<and> inbox h' 2 3 = vec [Fin 0, Fin 5]) \<and>
   max_sum_message pair_graph 3 2 = vec [Fin 5, Fin 5] \<and>
   send_ms_msg uneven_graph 3 2 = Inl ValueError"
  by (simp add: pair_graph_eq uneven_graph_eq np_defs node_defs upt_eval Let_def inbox_def
      max_sum_message_def potential_def axis_of_def others_def)

section \<open>The two sweeps\<close>

text \<open>
  What a completed run has sent depends on the neighbour lists alone: a node sends to
  a neighbour in the forward sweep when the neighbour does not occur before it, and in
  the backward sweep when it does not occur after it.
\<close>

lemma precedes_Nil [simp]: "\<not> precedes [] c x"
  by (simp add: precedes_def)

lemma precedes_Cons:
  "precedes (a # xs) c x = ((c = a \<and> x \<in> set xs) \<or> precedes xs c x)"
proof
  assume "precedes (a # xs) c x"
  then obtain i j where ij: "i < j" "j < Suc (length xs)" "(a # xs) ! i = c" "(a # xs) ! j = x"
    by (auto simp: precedes_def)
  then obtain j' where j': "j = Suc j'" by (cases j) auto
  show "(c = a \<and> x \<in> set xs) \<or> precedes xs c x"
  proof (cases i)
    case 0
    then show ?thesis using ij j' by auto
  next
    case (Suc i')
    then have "i' < j'" "j' < length xs" "xs ! i' = c" "xs ! j' = x" using ij j' by auto
    then show ?thesis unfolding precedes_def by blast
  qed
next
  assume "(c = a \<and> x \<in> set xs) \<or> precedes xs c x"
  then show "precedes (a # xs) c x"
  proof
    assume "c = a \<and> x \<in> set xs"
    then obtain j where "j < length xs" "xs ! j = x" by (auto simp: in_set_conv_nth)
    then have "0 < Suc j \<and> Suc j < length (a # xs) \<and> (a # xs) ! 0 = c \<and> (a # xs) ! Suc j = x"
      using \<open>c = a \<and> x \<in> set xs\<close> by simp
    then show ?thesis unfolding precedes_def by blast
  next
    assume "precedes xs c x"
    then obtain i j where "i < j" "j < length xs" "xs ! i = c" "xs ! j = x"
      by (auto simp: precedes_def)
    then have "Suc i < Suc j \<and> Suc j < length (a # xs) \<and> (a # xs) ! Suc i = c \<and> (a # xs) ! Suc j = x"
      by simp
    then show ?thesis unfolding precedes_def by blast
  qed
qed

lemma precedes_in_set: "precedes xs c x \<Longrightarrow> c \<in> set xs \<and> x \<in> set xs"
  by (induction xs) (auto simp: precedes_Cons)

lemma precedes_rev: "precedes (rev xs) c x = precedes xs x c"
proof -
  have r: "precedes (rev ys) c x" if "precedes ys x c" for ys :: "'a list" and c x
  proof -
    from that obtain i j where ij: "i < j" "j < length ys" "ys ! i = x" "ys ! j = c"
      by (auto simp: precedes_def)
    let ?i = "length ys - Suc j" and ?j = "length ys - Suc i"
    have "?i < ?j" "?j < length ys" using ij by arith+
    then have "?i < ?j \<and> ?j < length (rev ys) \<and> rev ys ! ?i = c \<and> rev ys ! ?j = x"
      using ij by (simp add: rev_nth Suc_diff_Suc)
    then show ?thesis unfolding precedes_def by blast
  qed
  from r[of xs x c] r[of "rev xs" c x] show ?thesis by auto
qed

lemma precedes_total:
  "distinct xs \<Longrightarrow> c \<in> set xs \<Longrightarrow> x \<in> set xs \<Longrightarrow> c \<noteq> x \<Longrightarrow>
   precedes xs c x \<noteq> precedes xs x c"
  by (induction xs) (auto simp: precedes_Cons dest: precedes_in_set)

lemma count_list_map_Pair:
  "count_list (map (Pair n) ys) (a, b) = (if n = a then count_list ys b else 0)"
  by (induction ys) auto

lemma count_list_filter_distinct:
  "distinct ys \<Longrightarrow> count_list (filter P ys) b = (if b \<in> set ys \<and> P b then 1 else 0)"
  by (induction ys) auto

lemma count_sweep_sends:
  assumes "distinct rest" "\<And>n. distinct (nbf n)"
  shows "count_list (sweep_sends nbf seen rest) (a, b)
         = (if a \<in> set rest \<and> b \<in> set (nbf a) \<and> b \<notin> set seen \<and> \<not> precedes rest b a then 1 else 0)"
  using assms(1)
proof (induction rest arbitrary: seen)
  case Nil
  then show ?case by simp
next
  case (Cons n rest)
  show ?case
    using Cons.IH[of "seen @ [n]"] Cons.prems
    by (auto simp: count_list_map_Pair count_list_filter_distinct[OF assms(2)] precedes_Cons
             dest: precedes_in_set)
qed

lemma keys_deliver:
  "inbox_keys (deliver h a b msg) x = (if x = b then insert a (inbox_keys h b) else inbox_keys h x)"
  by (simp add: inbox_keys_def deliver_in_msgs dom_update)

lemma same_attrs_refl [simp]: "same_attrs n n"
  by (simp add: same_attrs_def)

lemma same_attrs_trans: "same_attrs a b \<Longrightarrow> same_attrs b c \<Longrightarrow> same_attrs a c"
  by (simp add: same_attrs_def)

lemma send_deliver:
  "(if ms then send_ms_msg h a b else send_sp_msg h a b) = Inr h' \<Longrightarrow> \<exists>msg. h' = deliver h a b msg"
  using send_sp_msg_deliver send_ms_msg_deliver by (cases ms) auto

lemma unique_keys_deliver: "unique_keys h x \<Longrightarrow> unique_keys (deliver h a b msg) x"
  by (auto simp: unique_keys_def deliver_in_msgs distinct_update)

lemma send_each_log:
  "send_each ms a ts (h, l) = Inr (h', l') \<Longrightarrow>
     l' = l @ map (Pair a) ts \<and> (\<forall>x. same_attrs (h' x) (h x)) \<and>
     (\<forall>x. inbox_keys h' x = inbox_keys h x \<union> (if x \<in> set ts then {a} else {})) \<and>
     (\<forall>x. unique_keys h x \<longrightarrow> unique_keys h' x)"
proof (induction ts arbitrary: h l)
  case Nil
  then show ?case by simp
next
  case (Cons b ts)
  from Cons.prems obtain h1 where
    h1: "(if ms then send_ms_msg h a b else send_sp_msg h a b) = Inr h1"
    and rest: "send_each ms a ts (h1, l @ [(a, b)]) = Inr (h', l')"
    by (auto split: sum.splits)
  obtain msg where msg: "h1 = deliver h a b msg" using send_deliver[OF h1] by blast
  have ih: "l' = (l @ [(a, b)]) @ map (Pair a) ts" "\<forall>x. same_attrs (h' x) (h1 x)"
    "\<forall>x. inbox_keys h' x = inbox_keys h1 x \<union> (if x \<in> set ts then {a} else {})"
    "\<forall>x. unique_keys h1 x \<longrightarrow> unique_keys h' x"
    using Cons.IH[OF rest] by simp_all
  have "\<forall>x. same_attrs (h' x) (h x)"
    using ih(2) deliver_attrs[of h a b msg] msg same_attrs_trans by blast
  moreover have "\<forall>x. inbox_keys h' x = inbox_keys h x \<union> (if x \<in> set (b # ts) then {a} else {})"
    using ih(3) by (auto simp: msg keys_deliver)
  moreover have "\<forall>x. unique_keys h x \<longrightarrow> unique_keys h' x"
    using ih(4) unique_keys_deliver msg by blast
  ultimately show ?case using ih(1) by simp
qed

lemma same_attrs_neighbours:
  "\<forall>x. same_attrs (h' x) (h x) \<Longrightarrow> (\<lambda>n. neighbours (h' n)) = (\<lambda>n. neighbours (h n))"
  by (auto simp: same_attrs_def)

lemma sweep_log:
  "sweep ms seen rest (h, l) = Inr (h', l') \<Longrightarrow>
     l' = l @ sweep_sends (\<lambda>n. neighbours (h n)) seen rest \<and> (\<forall>x. same_attrs (h' x) (h x)) \<and>
     (\<forall>x. inbox_keys h' x = inbox_keys h x \<union> {a. (a, x) \<in> set (sweep_sends (\<lambda>n. neighbours (h n)) seen rest)}) \<and>
     (\<forall>x. unique_keys h x \<longrightarrow> unique_keys h' x)"
proof (induction rest arbitrary: seen h l)
  case Nil
  then show ?case by simp
next
  case (Cons n rest)
  let ?ts = "filter (\<lambda>x. \<not> x \<in> set seen) (neighbours (h n))"
  from Cons.prems obtain h1 l1 where
    s1: "send_each ms n ?ts (h, l) = Inr (h1, l1)"
    and s2: "sweep ms (seen @ [n]) rest (h1, l1) = Inr (h', l')"
    by (auto split: sum.splits)
  have e: "l1 = l @ map (Pair n) ?ts" "\<forall>x. same_attrs (h1 x) (h x)"
    "\<forall>x. inbox_keys h1 x = inbox_keys h x \<union> (if x \<in> set ?ts then {n} else {})"
    "\<forall>x. unique_keys h x \<longrightarrow> unique_keys h1 x"
    using send_each_log[OF s1] by simp_all
  have nb: "(\<lambda>n. neighbours (h1 n)) = (\<lambda>n. neighbours (h n))"
    using same_attrs_neighbours[OF e(2)] .
  have ih: "l' = l1 @ sweep_sends (\<lambda>n. neighbours (h n)) (seen @ [n]) rest"
    "\<forall>x. same_attrs (h' x) (h1 x)"
    "\<forall>x. inbox_keys h' x = inbox_keys h1 x \<union> {a. (a, x) \<in> set (sweep_sends (\<lambda>n. neighbours (h n)) (seen @ [n]) rest)}"
    "\<forall>x. unique_keys h1 x \<longrightarrow> unique_keys h' x"
    using Cons.IH[OF s2] by (simp_all add: nb)
  have "\<forall>x. same_attrs (h' x) (h x)"
    using ih(2) e(2) same_attrs_trans by blast
  moreover have "\<forall>x. inbox_keys h' x = inbox_keys h x \<union> {a. (a, x) \<in> set (sweep_sends (\<lambda>n. neighbours (h n)) seen (n # rest))}"
    using ih(3) e(3) by auto
  ultimately show ?case using ih(1,4) e(1,4) by simp
qed

lemma set_pending_frame:
  "in_msgs (set_pending ns h x) = in_msgs (h x) \<and> same_attrs (set_pending ns h x) (h x)"
  by (induction ns arbitrary: h) (auto simp: same_attrs_def)

lemma sum_product_log:
  assumes "sum_product h nodes ms = Inr (h', l)"
  defines "nbf \<equiv> \<lambda>n. neighbours (h n)"
  shows "l = sweep_sends nbf [] nodes @ sweep_sends nbf [] (rev nodes)"
    and "\<forall>x. same_attrs (h' x) (h x)"
    and "\<forall>x. inbox_keys h' x = inbox_keys h x \<union> {a. (a, x) \<in> set l}"
    and "\<forall>x. unique_keys h x \<longrightarrow> unique_keys h' x"
proof -
  from assms(1) obtain h1 l1 where
    s1: "sweep ms [] nodes (h, []) = Inr (h1, l1)"
    and s2: "sweep ms [] (rev nodes) (set_pending nodes h1, l1) = Inr (h', l)"
    by (auto simp: sum_product_def split: sum.splits)
  let ?h2 = "set_pending nodes h1"
  have f: "l1 = sweep_sends nbf [] nodes" "\<forall>x. same_attrs (h1 x) (h x)"
    "\<forall>x. inbox_keys h1 x = inbox_keys h x \<union> {a. (a, x) \<in> set (sweep_sends nbf [] nodes)}"
    "\<forall>x. unique_keys h x \<longrightarrow> unique_keys h1 x"
    using sweep_log[OF s1] by (simp_all add: nbf_def)
  have p: "\<forall>x. same_attrs (?h2 x) (h x)" "\<forall>x. inbox_keys ?h2 x = inbox_keys h1 x" "\<forall>x. unique_keys ?h2 x = unique_keys h1 x"
    using f(2) set_pending_frame[of nodes h1] same_attrs_trans
    by (auto simp: inbox_keys_def unique_keys_def) blast
  have nb: "(\<lambda>n. neighbours (?h2 n)) = nbf"
    using same_attrs_neighbours[OF p(1)] by (simp add: nbf_def)
  have b: "l = l1 @ sweep_sends nbf [] (rev nodes)" "\<forall>x. same_attrs (h' x) (?h2 x)"
    "\<forall>x. inbox_keys h' x = inbox_keys ?h2 x \<union> {a. (a, x) \<in> set (sweep_sends nbf [] (rev nodes))}"
    "\<forall>x. unique_keys ?h2 x \<longrightarrow> unique_keys h' x"
    using sweep_log[OF s2] by (simp_all add: nb)
  show "l = sweep_sends nbf [] nodes @ sweep_sends nbf [] (rev nodes)"
    using b(1) f(1) by simp
  show "\<forall>x. same_attrs (h' x) (h x)"
    using b(2) p(1) same_attrs_trans by blast
  show "\<forall>x. inbox_keys h' x = inbox_keys h x \<union> {a. (a, x) \<in> set l}"
    using b(3) p(2) f(3) b(1) f(1) by auto
  show "\<forall>x. unique_keys h x \<longrightarrow> unique_keys h' x"
    using b(4) p(3) f(4) by simp
qed

lemma well_formedD:
  assumes "well_formed h nodes" "n \<in> set nodes"
  shows "distinct (neighbours (h n))"
    and "\<And>nb. nb \<in> set (neighbours (h n)) \<Longrightarrow> nb \<in> set nodes \<and> n \<in> set (neighbours (h nb)) \<and> nb \<noteq> n"
    and "inbox_keys h n \<subseteq> set (neighbours (h n))"
    and "distinct (map fst (in_msgs (h n)))"
proof -
  have ok: "node_ok h nodes n" "inbox_ok h n"
    using assms by (auto simp: well_formed_def list_all_iff)
  show "distinct (neighbours (h n))" using ok(1) by (simp add: node_ok_def)
  show "nb \<in> set nodes \<and> n \<in> set (neighbours (h nb)) \<and> nb \<noteq> n"
    if "nb \<in> set (neighbours (h n))" for nb
    using ok(1) that by (auto simp: node_ok_def list_all_iff split: if_splits)
  show "inbox_keys h n \<subseteq> set (neighbours (h n))"
    using ok(2) by (auto simp: inbox_ok_def list_all_iff inbox_keys_def)
  show "distinct (map fst (in_msgs (h n)))" using ok(2) by (simp add: inbox_ok_def)
qed

lemma sum_product_exchanged:
  assumes wf: "well_formed h nodes" and run: "sum_product h nodes ms = Inr (h', l)"
  shows "exchanged h nodes h' l"
proof -
  define nbf where "nbf = (\<lambda>n. neighbours (h n))"
  have l: "l = sweep_sends nbf [] nodes @ sweep_sends nbf [] (rev nodes)"
    and attrs: "\<forall>x. same_attrs (h' x) (h x)"
    and inbox_keys: "\<forall>x. inbox_keys h' x = inbox_keys h x \<union> {a. (a, x) \<in> set l}"
    and uk: "\<forall>x. unique_keys h x \<longrightarrow> unique_keys h' x"
    using sum_product_log[OF run] by (simp_all add: nbf_def)
  have dn: "distinct nodes" using wf by (simp add: well_formed_def)
  have dnb: "\<And>n. n \<in> set nodes \<Longrightarrow> distinct (nbf n)"
    using well_formedD(1)[OF wf] by (simp add: nbf_def)
  define nbf' where "nbf' = (\<lambda>n. if n \<in> set nodes then nbf n else [])"
  have dnb': "\<And>n. distinct (nbf' n)" using dnb by (simp add: nbf'_def)
  have same: "sweep_sends nbf seen rest = sweep_sends nbf' seen rest" if "set rest \<subseteq> set nodes" for seen rest
    using that by (induction rest arbitrary: seen) (simp_all add: nbf'_def)
  have l': "l = sweep_sends nbf' [] nodes @ sweep_sends nbf' [] (rev nodes)"
    using l same[of nodes] same[of "rev nodes"] by simp
  have cnt: "count_list l (a, b)
      = (if a \<in> set nodes \<and> b \<in> set (nbf a) \<and> \<not> precedes nodes b a then 1 else 0)
        + (if a \<in> set nodes \<and> b \<in> set (nbf a) \<and> \<not> precedes nodes a b then 1 else 0)" for a b
    using count_sweep_sends[of nodes nbf' "[]" a b, OF dn dnb']
          count_sweep_sends[of "rev nodes" nbf' "[]" a b, OF _ dnb'] dn
    by (simp add: l' precedes_rev nbf'_def)
  have one: "count_list l (a, b) = 1" if "a \<in> set nodes" "b \<in> set (nbf a)" for a b
  proof -
    have "b \<in> set nodes" "b \<noteq> a"
      using well_formedD(2)[OF wf that(1), of b] that(2) by (simp_all add: nbf_def)
    then have "precedes nodes b a \<noteq> precedes nodes a b"
      using precedes_total[OF dn _ that(1)] by blast
    then show ?thesis using that by (auto simp: cnt)
  qed
  have mem: "a \<in> set nodes \<and> b \<in> set (nbf a)" if "(a, b) \<in> set l" for a b
  proof -
    have "count_list l (a, b) \<noteq> 0" using that by (simp add: count_list_0_iff)
    then show ?thesis by (auto simp: cnt split: if_splits)
  qed
  have k: "set (map fst (in_msgs (h' v))) = set (neighbours (h v))" if v: "v \<in> set nodes" for v
  proof -
    have "{a. (a, v) \<in> set l} = set (neighbours (h v))"
    proof (intro set_eqI iffI)
      fix a assume "a \<in> {a. (a, v) \<in> set l}"
      then have "a \<in> set nodes" "v \<in> set (neighbours (h a))" using mem by (auto simp: nbf_def)
      then show "a \<in> set (neighbours (h v))" using well_formedD(2)[OF wf] by blast
    next
      fix a assume a: "a \<in> set (neighbours (h v))"
      then have "a \<in> set nodes" "v \<in> set (nbf a)"
        using well_formedD(2)[OF wf v] by (auto simp: nbf_def)
      then have "count_list l (a, v) = 1" by (rule one)
      then show "a \<in> {a. (a, v) \<in> set l}" using count_list_0_iff[of l "(a, v)"] by auto
    qed
    then show ?thesis
      using inbox_keys well_formedD(3)[OF wf v] by (auto simp: inbox_keys_def)
  qed
  have u: "distinct (map fst (in_msgs (h' v)))" if "v \<in> set nodes" for v
    using uk well_formedD(4)[OF wf that] by (simp add: unique_keys_def)
  show ?thesis
    unfolding exchanged_def
    using one mem k attrs u by (auto simp: nbf_def same_attrs_def)
qed

lemma is_vector_ones: "is_vector n (np_ones n)"
  by (simp add: np_ones_def is_vector_vec)

lemma node_ok_attrs:
  "\<forall>x. same_attrs (h' x) (h x) \<Longrightarrow> node_ok h' nodes n = node_ok h nodes n"
  by (simp add: node_ok_def same_attrs_def split: node_kind.splits option.splits)

lemma edge_states_attrs:
  "\<forall>x. same_attrs (h' x) (h x) \<Longrightarrow> edge_states h' n k = edge_states h n k"
  by (simp add: edge_states_def same_attrs_def)

lemma set_update_subset: "set (AList.update k v al) \<subseteq> insert (k, v) (set al)"
  by (induction al) auto

lemma inbox_ok_deliver:
  assumes "inbox_ok h x" "a \<in> set (neighbours (h b))" "is_vector (edge_states h b a) msg"
  shows "inbox_ok (deliver h a b msg) x"
proof -
  let ?h = "deliver h a b msg"
  have at: "\<forall>y. same_attrs (?h y) (h y)" by (simp add: deliver_attrs)
  have nb: "neighbours (?h x) = neighbours (h x)" using at by (simp add: same_attrs_def)
  show ?thesis
  proof (cases "x = b")
    case True
    have "set (in_msgs (?h b)) \<subseteq> insert (a, msg) (set (in_msgs (h b)))"
      by (simp add: deliver_in_msgs set_update_subset)
    then have "\<And>k m. (k, m) \<in> set (in_msgs (?h b)) \<Longrightarrow>
                 k \<in> set (neighbours (h b)) \<and> is_vector (edge_states h b k) m"
      using assms True by (auto simp: inbox_ok_def list_all_iff)
    moreover have "distinct (map fst (in_msgs (?h b)))"
      using assms(1) True by (simp add: inbox_ok_def deliver_in_msgs distinct_update)
    ultimately show ?thesis
      using True nb by (fastforce simp: inbox_ok_def list_all_iff edge_states_attrs[OF at])
  next
    case False
    then show ?thesis
      using assms(1) nb by (simp add: inbox_ok_def edge_states_attrs[OF at] deliver_in_msgs)
  qed
qed

lemma inbox_lookup:
  assumes "inbox_ok h a" "nb \<in> inbox_keys h a"
  shows "\<exists>m. map_of (in_msgs (h a)) nb = Some m \<and> is_vector (edge_states h a nb) m"
proof -
  obtain m where m: "map_of (in_msgs (h a)) nb = Some m"
    using assms(2) by (cases "map_of (in_msgs (h a)) nb") (auto simp: inbox_keys_def map_of_eq_None_iff)
  then have "(nb, m) \<in> set (in_msgs (h a))" by (rule map_of_SomeD)
  then show ?thesis using assms(1) m by (auto simp: inbox_ok_def list_all_iff)
qed

lemma Variable_send_sp_msg_ok:
  assumes k: "kind (h a) = Variable" and ok: "node_ok h nodes a" "inbox_ok h a"
      and ks: "set (others h a b) \<subseteq> inbox_keys h a"
  shows "\<exists>msg. send_sp_msg h a b = Inr (deliver h a b msg) \<and> is_vector (num_states (h a)) msg"
proof (cases "latent (h a)")
  case False
  then have "send_sp_msg h a b = Inr (deliver h a b (observed_state (h a)))"
    "is_vector (num_states (h a)) (observed_state (h a))"
    using k ok(1) by (simp_all add: send_sp_msg_def Variable_send_sp_msg_def node_ok_def)
  then show ?thesis by blast
next
  case True
  show ?thesis
  proof (cases "others h a b = []")
    case e: True
    then have "send_sp_msg h a b = Inr (deliver h a b (np_ones (num_states (h a))))"
      using k True by (simp add: send_sp_msg_def Variable_send_sp_msg_def others_def)
    then show ?thesis using is_vector_ones by blast
  next
    case ne: False
    have "case map_of (in_msgs (h a)) nb of None \<Rightarrow> False
          | Some m \<Rightarrow> is_vector (num_states (h a)) m"
      if mem: "nb \<in> set (others h a b)" for nb
    proof -
      have "nb \<in> inbox_keys h a" using ks mem by blast
      then obtain m where "map_of (in_msgs (h a)) nb = Some m" "is_vector (edge_states h a nb) m"
        using inbox_lookup[OF ok(2)] by blast
      then show ?thesis using k by (simp add: edge_states_def)
    qed
    then have hm: "has_msgs h a (others h a b) (num_states (h a))"
      by (simp add: has_msgs_def list_all_iff)
    have "np_reduce_list nf_mul (Fin 1) (map (inbox h a) (others h a b))
             = Inr (ew_fold nf_mul (Fin 1) (num_states (h a)) (map (inbox h a) (others h a b)))"
      using ne by (intro np_reduce_list_vectors has_msgs_vectors hm) simp_all
    then have "send_sp_msg h a b = Inr (deliver h a b
        (ew_fold nf_mul (Fin 1) (num_states (h a)) (map (inbox h a) (others h a b))))"
      using k True ne getitems_has_msgs[OF hm]
      by (simp add: send_sp_msg_def Variable_send_sp_msg_def others_def[symmetric] Let_def)
    then show ?thesis using is_vector_ew_fold by blast
  qed
qed

lemma distinct_singleton: "distinct xs \<Longrightarrow> set xs = {b} \<Longrightarrow> xs = [b]"
proof (cases xs)
  case Nil
  assume "set xs = {b}"
  then show ?thesis using Nil by simp
next
  case (Cons x ys)
  assume d: "distinct xs" and s: "set xs = {b}"
  have x: "x = b" using s Cons by auto
  have "set ys \<subseteq> {b}" using s Cons by auto
  moreover have "b \<notin> set ys" using d Cons x by simp
  ultimately have "ys = []" by (cases ys) auto
  then show ?thesis using Cons x by simp
qed

lemma node_ok_FactorD:
  assumes "kind (h a) = Factor" "node_ok h nodes a"
  shows "\<exists>f. factor_f (h a) = Some f \<and> valid_array f \<and>
             shape f = map (\<lambda>nb. num_states (h nb)) (neighbours (h a))"
  using assms by (cases "factor_f (h a)") (simp_all add: node_ok_def)

lemma node_ok_distinct: "node_ok h nodes a \<Longrightarrow> distinct (neighbours (h a))"
  by (simp add: node_ok_def)

lemma others_Nil_only:
  assumes "others h a b = []" "b \<in> set (neighbours (h a))" "distinct (neighbours (h a))"
  shows "neighbours (h a) = [b]"
proof -
  have "\<forall>x\<in>set (neighbours (h a)). x = b"
    using assms(1) by (simp add: others_def filter_empty_conv)
  then have "set (neighbours (h a)) = {b}" using assms(2) by blast
  then show ?thesis using assms(3) by (rule distinct_singleton[rotated])
qed

lemma Factor_send_sp_msg_ok:
  assumes k: "kind (h a) = Factor" and ok: "node_ok h nodes a" "inbox_ok h a"
      and b: "b \<in> set (neighbours (h a))"
      and ks: "set (others h a b) \<subseteq> inbox_keys h a"
  shows "\<exists>msg. send_sp_msg h a b = Inr (deliver h a b msg) \<and> is_vector (num_states (h b)) msg"
proof -
  obtain f where f: "factor_f (h a) = Some f" "valid_array f"
    "shape f = map (\<lambda>nb. num_states (h nb)) (neighbours (h a))"
    using node_ok_FactorD[OF k ok(1)] by blast
  have dist: "distinct (neighbours (h a))" using ok(1) by (rule node_ok_distinct)
  have ax: "shape f ! axis_of h a nb = num_states (h nb)" if "nb \<in> set (neighbours (h a))" for nb
  proof -
    have l: "axis_of h a nb < length (neighbours (h a))"
      using first_index_less[OF that] by (simp add: axis_of_def)
    have "neighbours (h a) ! axis_of h a nb = nb"
      using nth_first_index[OF that] by (simp add: axis_of_def)
    then show ?thesis using l by (simp add: f(3))
  qed
  show ?thesis
  proof (cases "others h a b = []")
    case True
    have nb: "neighbours (h a) = [b]" using True b dist by (rule others_Nil_only)
    have "shape f = [num_states (h b)]" using f(3) nb by simp
    then have "is_vector (num_states (h b)) f"
      using f(2) by (simp add: is_vector_def valid_array_def)
    moreover have "send_sp_msg h a b = Inr (deliver h a b f)"
      using k True f(1)
      by (simp add: send_sp_msg_def Factor_send_sp_msg_def others_def get_f_def)
    ultimately show ?thesis by blast
  next
    case False
    have each: "case map_of (in_msgs (h a)) nb of None \<Rightarrow> False
            | Some m \<Rightarrow> is_vector (shape f ! axis_of h a nb) m"
      if mem: "nb \<in> set (others h a b)" for nb
    proof -
      have nb: "nb \<in> set (neighbours (h a))" using mem by (simp add: others_def)
      have "nb \<in> inbox_keys h a" using ks mem by blast
      then obtain m where m: "map_of (in_msgs (h a)) nb = Some m" "is_vector (edge_states h a nb) m"
        using inbox_lookup[OF ok(2)] by blast
      have "edge_states h a nb = num_states (h nb)" using k by (simp add: edge_states_def)
      then show ?thesis using ax[OF nb] m by simp
    qed
    have la: "list_all (\<lambda>nb. case map_of (in_msgs (h a)) nb of
                           None \<Rightarrow> False
                         | Some m \<Rightarrow> is_vector (shape f ! axis_of h a nb) m) (others h a b)"
      unfolding list_all_iff using each by blast
    have "length (shape f) = length (neighbours (h a))" by (simp add: f(3))
    then have r: "factor_ready h a b"
      using la dist b by (simp add: factor_ready_def f(1))
    have "is_vector (num_states (h b)) (sum_product_message h a b)"
      using ax[OF b] by (simp add: sum_product_message_def potential_def f(1) Let_def is_vector_vec)
    moreover have "send_sp_msg h a b = Inr (deliver h a b (sum_product_message h a b))"
      using Factor_send_sp_msg_value[OF r False] k by (simp add: send_sp_msg_def)
    ultimately show ?thesis by blast
  qed
qed

lemma send_sp_msg_ok:
  assumes ok: "node_ok h nodes a" "inbox_ok h a"
      and b: "b \<in> set (neighbours (h a))"
      and ks: "set (others h a b) \<subseteq> inbox_keys h a"
  shows "\<exists>msg. send_sp_msg h a b = Inr (deliver h a b msg) \<and> is_vector (edge_states h b a) msg"
proof (cases "kind (h a)")
  case Node
  then show ?thesis using ok(1) by (simp add: node_ok_def)
next
  case Variable
  then have "kind (h b) = Factor" using ok(1) b by (auto simp: node_ok_def list_all_iff)
  then show ?thesis
    using Variable_send_sp_msg_ok[OF Variable ok ks] by (simp add: edge_states_def)
next
  case Factor
  then have "kind (h b) = Variable" using ok(1) b by (auto simp: node_ok_def list_all_iff)
  then show ?thesis
    using Factor_send_sp_msg_ok[OF Factor ok b ks] by (simp add: edge_states_def)
qed

lemma node_ok_symmetric:
  assumes "node_ok h nodes a" "b \<in> set (neighbours (h a))"
  shows "b \<in> set nodes" "a \<in> set (neighbours (h b))" "b \<noteq> a"
proof -
  have *: "b \<in> set nodes \<and> a \<in> set (neighbours (h b)) \<and>
        (if kind (h a) = Variable then kind (h b) = Factor else kind (h b) = Variable)"
    using assms by (simp add: node_ok_def list_all_iff)
  show "b \<in> set nodes" "a \<in> set (neighbours (h b))" using * by simp_all
  have "kind (h a) \<noteq> Node" using assms(1) by (auto simp: node_ok_def)
  then have "kind (h b) \<noteq> kind (h a)" using * by (cases "kind (h a)") auto
  then show "b \<noteq> a" by auto
qed

lemma send_each_ok:
  assumes "node_ok h nodes a" "\<forall>n\<in>S. inbox_ok h n" "a \<in> S"
    "set ts \<subseteq> set (neighbours (h a))" "\<forall>b\<in>set ts. set (others h a b) \<subseteq> inbox_keys h a"
  shows "\<exists>h' l'. send_each False a ts (h, l) = Inr (h', l') \<and> (\<forall>n\<in>S. inbox_ok h' n)"
  using assms
proof (induction ts arbitrary: h l)
  case Nil
  then show ?case by simp
next
  case (Cons b ts)
  have b: "b \<in> set (neighbours (h a))" using Cons.prems(4) by simp
  have sym: "a \<in> set (neighbours (h b))" "b \<noteq> a"
    using node_ok_symmetric[OF Cons.prems(1) b] by auto
  have iba: "inbox_ok h a" using Cons.prems(2,3) by blast
  have ks: "set (others h a b) \<subseteq> inbox_keys h a" using Cons.prems(5) by simp
  obtain msg where msg: "send_sp_msg h a b = Inr (deliver h a b msg)"
      "is_vector (edge_states h b a) msg"
    using send_sp_msg_ok[OF Cons.prems(1) iba b ks] by blast
  define h1 where "h1 = deliver h a b msg"
  have at: "\<forall>x. same_attrs (h1 x) (h x)" by (simp add: h1_def deliver_attrs)
  have 1: "node_ok h1 nodes a" using node_ok_attrs[OF at] Cons.prems(1) by simp
  have 2: "\<forall>n\<in>S. inbox_ok h1 n"
    using inbox_ok_deliver[OF _ sym(1) msg(2)] Cons.prems(2) by (simp add: h1_def)
  have nb: "neighbours (h1 a) = neighbours (h a)" using at by (simp add: same_attrs_def)
  have 4: "set ts \<subseteq> set (neighbours (h1 a))" using Cons.prems(4) nb by simp
  have k: "inbox_keys h1 a = inbox_keys h a" using sym(2) by (simp add: h1_def keys_deliver)
  have o: "others h1 a c = others h a c" for c by (simp add: others_def nb)
  have 5: "\<forall>c\<in>set ts. set (others h1 a c) \<subseteq> inbox_keys h1 a"
    using Cons.prems(5) by (simp add: k o)
  obtain h' l' where "send_each False a ts (h1, l @ [(a, b)]) = Inr (h', l')"
      "\<forall>n\<in>S. inbox_ok h' n"
    using Cons.IH[OF 1 2 Cons.prems(3) 4 5] by blast
  then show ?case using msg(1) by (simp add: h1_def)
qed

lemma ready_mono:
  assumes "\<forall>x. inbox_keys h x \<subseteq> inbox_keys h' x" "\<forall>x. neighbours (h' x) = neighbours (h x)"
  shows "sends_ready h seen rest \<Longrightarrow> sends_ready h' seen rest"
proof (induction rest arbitrary: seen)
  case Nil
  then show ?case by simp
next
  case (Cons n rest)
  have "c \<in> inbox_keys h' n"
    if "b \<in> set (neighbours (h n))" "c \<in> set (neighbours (h n))" "b \<notin> set seen"
       "c \<notin> set seen" "b \<noteq> c" for b c
  proof -
    have "c \<in> inbox_keys h n" using Cons.prems that by auto
    then show ?thesis using assms(1) by blast
  qed
  then show ?case using Cons assms(2) by simp
qed

lemma sweep_ok:
  assumes "\<forall>n\<in>set nodes. node_ok h nodes n \<and> inbox_ok h n"
    "set rest \<subseteq> set nodes" "distinct (seen @ rest)"
    "\<forall>x\<in>set rest. \<forall>c\<in>set (neighbours (h x)). c \<in> set seen \<longrightarrow> c \<in> inbox_keys h x"
    "sends_ready h seen rest"
  shows "\<exists>h' l'. sweep False seen rest (h, l) = Inr (h', l') \<and> (\<forall>n\<in>set nodes. inbox_ok h' n)"
  using assms
proof (induction rest arbitrary: seen h l)
  case Nil
  then show ?case by simp
next
  case (Cons n rest)
  let ?ts = "filter (\<lambda>x. \<not> x \<in> set seen) (neighbours (h n))"
  have n: "n \<in> set nodes" using Cons.prems(2) by simp
  have okn: "node_ok h nodes n" using Cons.prems(1) n by blast
  have ib: "\<forall>m\<in>set nodes. inbox_ok h m" using Cons.prems(1) by blast
  have pre: "\<forall>b\<in>set ?ts. set (others h n b) \<subseteq> inbox_keys h n"
  proof (intro ballI subsetI)
    fix b c assume b: "b \<in> set ?ts" and c: "c \<in> set (others h n b)"
    then have bc: "b \<in> set (neighbours (h n))" "b \<notin> set seen"
        "c \<in> set (neighbours (h n))" "b \<noteq> c"
      by (auto simp: others_def)
    show "c \<in> inbox_keys h n"
    proof (cases "c \<in> set seen")
      case True
      then show ?thesis using Cons.prems(4) bc(3) by simp
    next
      case False
      then show ?thesis using Cons.prems(5) bc by auto
    qed
  qed
  have sub: "set ?ts \<subseteq> set (neighbours (h n))" by auto
  obtain h1 l1 where s1: "send_each False n ?ts (h, l) = Inr (h1, l1)"
      and ib1: "\<forall>m\<in>set nodes. inbox_ok h1 m"
    using send_each_ok[OF okn ib n sub pre, of l] by blast
  have e: "\<forall>x. same_attrs (h1 x) (h x)"
      "\<forall>x. inbox_keys h1 x = inbox_keys h x \<union> (if x \<in> set ?ts then {n} else {})"
    using send_each_log[OF s1] by simp_all
  have nb: "\<forall>x. neighbours (h1 x) = neighbours (h x)" using e(1) by (simp add: same_attrs_def)
  have 1: "\<forall>m\<in>set nodes. node_ok h1 nodes m \<and> inbox_ok h1 m"
    using node_ok_attrs[OF e(1)] Cons.prems(1) ib1 by simp
  have 2: "set rest \<subseteq> set nodes" using Cons.prems(2) by simp
  have 3: "distinct ((seen @ [n]) @ rest)" using Cons.prems(3) by simp
  have 4: "\<forall>x\<in>set rest. \<forall>c\<in>set (neighbours (h1 x)). c \<in> set (seen @ [n]) \<longrightarrow> c \<in> inbox_keys h1 x"
  proof (intro ballI impI)
    fix x c assume x: "x \<in> set rest" and c: "c \<in> set (neighbours (h1 x))"
      and s: "c \<in> set (seen @ [n])"
    have cx: "c \<in> set (neighbours (h x))" using c nb by simp
    show "c \<in> inbox_keys h1 x"
    proof (cases "c = n")
      case True
      have "node_ok h nodes x" using Cons.prems(1,2) x by auto
      then have "x \<in> set (neighbours (h n))" using node_ok_symmetric(2) cx True by blast
      moreover have "x \<notin> set seen" using Cons.prems(3) x by auto
      ultimately have "x \<in> set ?ts" by simp
      then show ?thesis using e(2) True by simp
    next
      case False
      then have "c \<in> set seen" using s by simp
      then have "c \<in> inbox_keys h x" using Cons.prems(4) x cx by simp
      then show ?thesis using e(2) by simp
    qed
  qed
  have 5: "sends_ready h1 (seen @ [n]) rest"
  proof (rule ready_mono[of h h1])
    show "\<forall>x. inbox_keys h x \<subseteq> inbox_keys h1 x" using e(2) by auto
    show "\<forall>x. neighbours (h1 x) = neighbours (h x)" by (rule nb)
    show "sends_ready h (seen @ [n]) rest" using Cons.prems(5) by simp
  qed
  obtain h' l' where "sweep False (seen @ [n]) rest (h1, l1) = Inr (h', l')"
      "\<forall>m\<in>set nodes. inbox_ok h' m"
    using Cons.IH[OF 1 2 3 4 5, of l1] by blast
  then show ?case using s1 by simp
qed

lemma filter_two:
  assumes "distinct xs" "b \<in> set xs" "c \<in> set xs" "b \<noteq> c" "P b" "P c"
  shows "2 \<le> length (filter P xs)"
proof -
  have "{b, c} \<subseteq> set (filter P xs)" using assms by simp
  then have "card {b, c} \<le> card (set (filter P xs))" by (intro card_mono) simp_all
  also have "\<dots> = length (filter P xs)"
    using assms(1) distinct_card[of "filter P xs"] by simp
  finally show ?thesis using assms(4) by simp
qed

lemma ready_linear:
  assumes "\<forall>n\<in>set rest. distinct (neighbours (h n))"
  shows "later_at_most_one h seen rest \<Longrightarrow> sends_ready h seen rest"
  using assms
proof (induction rest arbitrary: seen)
  case Nil
  then show ?case by simp
next
  case (Cons n rest)
  have "b = c" if "b \<in> set (neighbours (h n))" "c \<in> set (neighbours (h n))"
      "b \<notin> set seen" "c \<notin> set seen" for b c
  proof (rule ccontr)
    assume "b \<noteq> c"
    then have "2 \<le> length (filter (\<lambda>x. \<not> x \<in> set seen) (neighbours (h n)))"
      using filter_two[of "neighbours (h n)" b c "\<lambda>x. \<not> x \<in> set seen"] Cons.prems(2) that
      by simp
    then show False using Cons.prems(1) by simp
  qed
  then show ?case using Cons by auto
qed

lemma ready_sent:
  assumes "\<forall>n\<in>set rest. \<forall>c\<in>set (neighbours (h n)). c \<in> set (seen @ rest) \<and> c \<noteq> n"
    "\<forall>n c. c \<in> set (neighbours (h n)) \<and> precedes rest n c \<longrightarrow> c \<in> inbox_keys h n"
  shows "sends_ready h seen rest"
  using assms
proof (induction rest arbitrary: seen)
  case Nil
  then show ?case by simp
next
  case (Cons n rest)
  have head: "c \<in> inbox_keys h n" if "c \<in> set (neighbours (h n))" "c \<notin> set seen" for c
  proof -
    have "c \<in> set rest" using Cons.prems(1) that by auto
    then have "precedes (n # rest) n c" by (simp add: precedes_Cons)
    then show ?thesis using Cons.prems(2) that(1) by blast
  qed
  have "sends_ready h (seen @ [n]) rest"
  proof (rule Cons.IH)
    show "\<forall>m\<in>set rest. \<forall>c\<in>set (neighbours (h m)). c \<in> set ((seen @ [n]) @ rest) \<and> c \<noteq> m"
      using Cons.prems(1) by auto
    show "\<forall>m c. c \<in> set (neighbours (h m)) \<and> precedes rest m c \<longrightarrow> c \<in> inbox_keys h m"
      using Cons.prems(2) by (simp add: precedes_Cons)
  qed
  then show ?case using head by simp
qed

lemma sweep_sends_mem:
  "distinct rest \<Longrightarrow>
   ((a, b) \<in> set (sweep_sends nbf seen rest)) =
   (a \<in> set rest \<and> b \<in> set (nbf a) \<and> b \<notin> set seen \<and> \<not> precedes rest b a)"
proof (induction rest arbitrary: seen)
  case Nil
  then show ?case by simp
next
  case (Cons n rest)
  show ?case
    using Cons.IH[of "seen @ [n]"] Cons.prems
    by (auto simp: precedes_Cons dest: precedes_in_set)
qed

lemma inbox_ok_frame:
  assumes "\<forall>x. same_attrs (h' x) (h x)" "in_msgs (h' n) = in_msgs (h n)"
  shows "inbox_ok h' n = inbox_ok h n"
proof -
  have "neighbours (h' n) = neighbours (h n)" using assms(1) by (simp add: same_attrs_def)
  then show ?thesis by (simp add: inbox_ok_def assms(2) edge_states_attrs[OF assms(1)])
qed

lemma sum_product_returns:
  assumes wf: "well_formed h nodes" and lin: "linearization h nodes"
  shows "\<exists>h' l. sum_product h nodes False = Inr (h', l)"
proof -
  let ?nbf = "\<lambda>n. neighbours (h n)"
  have dn: "distinct nodes" using wf by (simp add: well_formed_def)
  have ok: "\<forall>n\<in>set nodes. node_ok h nodes n \<and> inbox_ok h n"
    using wf by (simp add: well_formed_def list_all_iff)
  have "\<forall>n\<in>set nodes. distinct (neighbours (h n))" using ok node_ok_distinct by blast
  then have r1: "sends_ready h [] nodes"
    using ready_linear[of nodes h "[]"] lin by (simp add: linearization_def)
  have "\<exists>h1 l1. sweep False [] nodes (h, []) = Inr (h1, l1) \<and> (\<forall>n\<in>set nodes. inbox_ok h1 n)"
    using ok _ _ _ r1 by (rule sweep_ok) (simp_all add: dn)
  then obtain h1 l1 where s1: "sweep False [] nodes (h, []) = Inr (h1, l1)"
      and ib1: "\<forall>n\<in>set nodes. inbox_ok h1 n"
    by blast
  have f: "\<forall>x. same_attrs (h1 x) (h x)"
      "\<forall>x. inbox_keys h1 x = inbox_keys h x \<union> {a. (a, x) \<in> set (sweep_sends ?nbf [] nodes)}"
    using sweep_log[OF s1] by simp_all
  define h2 where "h2 = set_pending nodes h1"
  have p1: "\<forall>x. same_attrs (h2 x) (h1 x)" and p2: "\<forall>x. in_msgs (h2 x) = in_msgs (h1 x)"
    using set_pending_frame[of nodes h1] by (simp_all add: h2_def)
  have at2: "\<forall>x. same_attrs (h2 x) (h x)" using p1 f(1) same_attrs_trans by blast
  have nb2: "\<forall>x. neighbours (h2 x) = neighbours (h x)" using at2 by (simp add: same_attrs_def)
  have k2: "\<forall>x. inbox_keys h2 x = inbox_keys h1 x" using p2 by (simp add: inbox_keys_def)
  have ok2: "\<forall>n\<in>set nodes. node_ok h2 nodes n \<and> inbox_ok h2 n"
    using ok ib1 node_ok_attrs[OF at2] inbox_ok_frame[OF p1] p2 by simp
  have r2: "sends_ready h2 [] (rev nodes)"
  proof (rule ready_sent)
    show "\<forall>n\<in>set (rev nodes). \<forall>c\<in>set (neighbours (h2 n)). c \<in> set ([] @ rev nodes) \<and> c \<noteq> n"
    proof (intro ballI)
      fix n c assume "n \<in> set (rev nodes)" "c \<in> set (neighbours (h2 n))"
      then have "node_ok h nodes n" "c \<in> set (neighbours (h n))" using ok nb2 by simp_all
      then show "c \<in> set ([] @ rev nodes) \<and> c \<noteq> n"
        using node_ok_symmetric[of h nodes n c] by simp
    qed
    show "\<forall>n c. c \<in> set (neighbours (h2 n)) \<and> precedes (rev nodes) n c \<longrightarrow> c \<in> inbox_keys h2 n"
    proof (intro allI impI)
      fix n c assume a: "c \<in> set (neighbours (h2 n)) \<and> precedes (rev nodes) n c"
      then have pr: "precedes nodes c n" by (simp add: precedes_rev)
      then have mem: "c \<in> set nodes" "n \<in> set nodes" using precedes_in_set[OF pr] by simp_all
      have cn: "c \<in> set (neighbours (h n))" using a nb2 by simp
      have "node_ok h nodes n" using ok mem(2) by blast
      then have sym: "n \<in> set (neighbours (h c))" "c \<noteq> n"
        using node_ok_symmetric[of h nodes n c] cn by simp_all
      have "\<not> precedes nodes n c" using precedes_total[OF dn mem sym(2)] pr by simp
      then have "(c, n) \<in> set (sweep_sends ?nbf [] nodes)"
        using sweep_sends_mem[OF dn, of c n ?nbf "[]"] mem sym by simp
      then show "c \<in> inbox_keys h2 n" using f(2) k2 by simp
    qed
  qed
  have "\<exists>h' l'. sweep False [] (rev nodes) (h2, l1) = Inr (h', l') \<and> (\<forall>n\<in>set nodes. inbox_ok h' n)"
    using ok2 _ _ _ r2 by (rule sweep_ok) (simp_all add: dn)
  then show ?thesis using s1 by (auto simp: sum_product_def h2_def)
qed

text \<open>
  C3. For every well-formed graph and every list of its nodes that linearizes it from
  the leaves to the root: in sum-product mode the scheduler returns (no send raises);
  and in either mode, whenever the forward sweep, the leaf fix-up and the backward
  sweep have completed, every edge has carried exactly one message in each direction
  exactly once and every inbox, that of every variable in particular, holds exactly
  one stored message per neighbour.
\<close>

theorem scheduler_postcondition:
  assumes "well_formed h nodes" "linearization h nodes"
  shows "(\<exists>h' l. sum_product h nodes False = Inr (h', l)) \<and>
         (\<forall>max_sum h' l. sum_product h nodes max_sum = Inr (h', l) \<longrightarrow> exchanged h nodes h' l)"
  using sum_product_returns[OF assms] sum_product_exchanged[OF assms(1)] by blast

theorem scheduler_postcondition_witness:
  "well_formed chain [3, 1, 4, 2] \<and> linearization chain [3, 1, 4, 2] \<and>
   (\<exists>h'. sum_product chain [3, 1, 4, 2] False
            = Inr (h', [(3, 1), (1, 4), (4, 2), (2, 4), (4, 1), (1, 3)]) \<and>
         exchanged chain [3, 1, 4, 2] h' [(3, 1), (1, 4), (4, 2), (2, 4), (4, 1), (1, 3)])"
proof -
  have wf: "well_formed chain [3, 1, 4, 2]"
    by (simp add: chain_eq well_formed_def node_ok_def inbox_ok_def valid_array_def
        is_vector_ones vec_def)
  have lin: "linearization chain [3, 1, 4, 2]"
    by (simp add: chain_eq linearization_def)
  obtain h' l where run: "sum_product chain [3, 1, 4, 2] False = Inr (h', l)"
      and ex: "exchanged chain [3, 1, 4, 2] h' l"
    using scheduler_postcondition[OF wf lin] by blast
  have l: "l = [(3, 1), (1, 4), (4, 2), (2, 4), (4, 1), (1, 3)]"
    using sum_product_log(1)[OF run] by (simp add: chain_eq)
  show ?thesis using wf lin run ex l by blast
qed

end
